theory Spec2Isabelle
  imports Main "HOL-Library.Word" "HOL-Library.Sublist"
begin

section \<open>Data model of \<open>CSpxSynthesizer\<close> (synthesizer.cpp)\<close>

text \<open>
  A request id is the \<open>std::wstring\<close> that \<open>PAL::CreateGuidWithoutDashes\<close> returns; the
  generator is outside the file, so every operation takes the id it would have minted as an
  argument. A subscriber identity is the \<open>void*\<close> key of the event tables, a callback a
  non-null \<open>SynthesisCallbackFunction_Type\<close>; the null callback is \<open>None\<close> where the
  source accepts one.
\<close>

type_synonym request_id = string
type_synonym subscriber = nat
type_synonym callback = nat
type_synonym buffer = "8 word list"

text \<open>
  \<open>ResultReason\<close> is declared outside the file. The four enumerators that
  \<open>FireResultEvent\<close> names are kept; \<open>OtherReason n\<close> stands for every other
  enumerator of the enumeration.
\<close>

datatype ResultReason =
    SynthesizingAudioStarted
  | SynthesizingAudio
  | SynthesizingAudioCompleted
  | Canceled
  | OtherReason nat

datatype CancellationReason = REASON_CANCELED_NONE | REASON_CANCELED nat

datatype CancellationErrorCode = NoError | ErrorCode nat

datatype AsyncOpState = AOS_Started | AOS_Completed | AOS_Canceled | AOS_Error

text \<open>
  The three lambdas that the file hands to \<open>std::async\<close>: the one of \<open>SpeakAsync\<close>
  (lines 118-121), the one of \<open>StartSpeaking\<close> (lines 142-161) and the one of
  \<open>StartSpeakingAsync\<close> (lines 174-177).
\<close>

datatype lambda = Speak_lambda | StartSpeaking_lambda | StartSpeakingAsync_lambda

text \<open>
  \<open>CSpxAsyncOp\<close>: a shared future together with a state tag. The future is the
  background task, identified by its lambda and by what the lambda captures (for the two
  lambdas that mint their request id themselves, the id they will mint).
\<close>

record CSpxAsyncOp =
  task :: lambda
  task_requestId :: request_id
  task_text :: string
  task_isSsml :: bool
  state :: AsyncOpState

text \<open>
  The fields that \<open>InitSynthesisResult\<close>, \<open>SetEvents\<close> and \<open>SetFutureResult\<close> receive.
\<close>

record SynthesisResult =
  requestId :: request_id
  reason :: ResultReason
  cancel_reason :: CancellationReason
  error_code :: CancellationErrorCode
  audio_buffer :: buffer
  audio_length :: nat
  format :: buffer
  has_header :: bool
  events :: bool
  futureResult :: "CSpxAsyncOp option"

text \<open>
  The two collaborators behind interfaces. An audio output answers \<open>GetFormat\<close>,
  \<open>HasHeader\<close> and, for \<open>Write\<close>, the number of bytes it reports as written. A TTS engine
  adapter is created under a class name; its \<open>Speak\<close> hands audio chunks
  (buffer and size) to the synthesizer's \<open>Write\<close> and returns its own result.
\<close>

record audio_output =
  GetFormat :: buffer
  HasHeader :: bool
  output_Write :: "buffer \<Rightarrow> 32 word \<Rightarrow> 32 word"

record tts_adapter =
  class_name :: string
  adapter_Speak :: "string \<Rightarrow> bool \<Rightarrow> request_id \<Rightarrow> (buffer \<times> 32 word) list \<times> SynthesisResult"

text \<open>
  What the synthesizer does to the world, in the order it does it: requests to the object
  factory, calls on the adapter and on the audio output, queue operations, events fired
  (the entry of \<open>FireSynthesisStarted\<close> and its three siblings) and the callbacks that
  a signal invokes.
\<close>

datatype event_kind = Started | InProgress | Completed | CanceledEvent

datatype effect =
    ObjectRequested string
  | LogFilenameSet string
  | AdapterSetOutput
  | AdapterSpeak string bool request_id
  | AdapterTerm
  | OutputWrite buffer "32 word"
  | OutputWaitUntilDone
  | OutputClose
  | QueuePushed request_id
  | QueueFront request_id
  | QueuePopped
  | EventFired event_kind SynthesisResult
  | CallbackInvoked subscriber callback SynthesisResult
  | WordBoundarySignalled "64 word" "32 word" "32 word"

text \<open>
  An event signal holds callbacks; a table of one event kind is the \<open>std::list\<close> of pairs
  of subscriber identity and signal, in list order.
\<close>

type_synonym signal = "callback list"
type_synonym event_table = "(subscriber \<times> signal) list"

record synthesizer =
  m_fEnabled :: bool
  m_siteKeepAlive :: bool
  m_ttsAdapter :: "tts_adapter option"
  m_audioOutput :: "audio_output option"
  m_requestQueue :: "request_id list"
  SynthesisStarted :: event_table
  Synthesizing :: event_table
  SynthesisCompleted :: event_table
  SynthesisCanceled :: event_table
  effects :: "effect list"

text \<open>
  Failures. Dereferencing a null \<open>shared_ptr\<close> and reading the front of an empty
  \<open>std::queue\<close> have no defined behaviour in C++; the model stops there with a fault.
  \<open>SPXERR_NOT_FOUND\<close> is the exception of line 624. \<open>WaitsForever\<close> is the outcome of
  a condition-variable wait whose predicate is false and stays false because no other thread
  runs.
\<close>

datatype fault =
    NullPointerDereference
  | FrontOfEmptyQueue
  | PopOfEmptyQueue
  | SPXERR_NOT_FOUND
  | WaitsForever

text \<open>
  The hosting site: the property store, the helpers of \<open>PAL\<close> and
  \<open>CSpxSynthesisHelper\<close>, the table \<open>GetPropertyName\<close> and the object factory behind
  \<open>SpxCreateObjectWithSite\<close>. None of them is defined in the file, so they are parameters.
  The factory answers a class name with an object or with \<open>nullptr\<close>, the case the test
  of line 624 is written for. For an adapter class the object is the adapter
  (\<open>CreateObject\<close>); an object of a result or event-arguments class is blank until the
  caller initialises it, so for those classes the answer is whether there is an object
  (\<open>Creates\<close>).
\<close>

datatype PropertyId = SpeechServiceConnection_Endpoint | Speech_LogFilename

datatype Protocol = HTTP | WebSocket | OtherProtocol

record site =
  properties :: "string \<Rightarrow> string option"
  GetPropertyName :: "PropertyId \<Rightarrow> string"
  ToBool :: "string \<Rightarrow> bool"
  BoolToString :: "bool \<Rightarrow> string"
  ParseUrl_protocol :: "string \<Rightarrow> Protocol"
  CreateObject :: "string \<Rightarrow> tts_adapter option"
  Creates :: "string \<Rightarrow> bool"

definition GetStringValue :: "site \<Rightarrow> string \<Rightarrow> string \<Rightarrow> string" where
  "GetStringValue env name dflt =
     (case properties env name of None \<Rightarrow> dflt | Some v \<Rightarrow> v)"

text \<open>The constructor: enabled, everything else empty or null.\<close>

definition CSpxSynthesizer :: synthesizer where
  "CSpxSynthesizer =
     \<lparr> m_fEnabled = True, m_siteKeepAlive = False, m_ttsAdapter = None,
       m_audioOutput = None, m_requestQueue = [],
       SynthesisStarted = [], Synthesizing = [], SynthesisCompleted = [],
       SynthesisCanceled = [], effects = [] \<rparr>"

section \<open>Adapter selection\<close>

text \<open>
  One boolean override, as lines 584-591 read it:
  \<open>PAL::ToBool(GetStringValue(name, PAL::BoolToString(false).c_str()))\<close>.
\<close>

definition flag :: "site \<Rightarrow> string \<Rightarrow> bool" where
  "flag env name = ToBool env (GetStringValue env name (BoolToString env False))"

definition SpxCreateObjectWithSite :: "site \<Rightarrow> string \<Rightarrow> synthesizer \<Rightarrow> synthesizer" where
  "SpxCreateObjectWithSite env cls s =
     s \<lparr> m_ttsAdapter := CreateObject env cls, effects := effects s @ [ObjectRequested cls] \<rparr>"

text \<open>
  \<open>SpxCreateObjectWithSite\<close> for a result or event-arguments class (lines 430, 503 and
  547): the request is made, and the pointer returned is null or not.
\<close>

definition SpxCreateObjectWithSite_blank :: "site \<Rightarrow> string \<Rightarrow> synthesizer \<Rightarrow> bool \<times> synthesizer" where
  "SpxCreateObjectWithSite_blank env cls s =
     (Creates env cls, s \<lparr> effects := effects s @ [ObjectRequested cls] \<rparr>)"

text \<open>The four \<open>try\<close> variables as they stand after line 597.\<close>

definition endpoint_of :: "site \<Rightarrow> string" where
  "endpoint_of env = GetStringValue env (GetPropertyName env SpeechServiceConnection_Endpoint) []"

definition tryMock :: "site \<Rightarrow> bool" where
  "tryMock env = (flag env ''SDK-INTERNAL-UseTtsEngine-Mock'' \<or> flag env ''CARBON-INTERNAL-UseTtsEngine-Mock'')"

definition tryLocal :: "site \<Rightarrow> bool" where
  "tryLocal env = (flag env ''SDK-INTERNAL-UseTtsEngine-Local'' \<or> flag env ''CARBON-INTERNAL-UseTtsEngine-Local'')"

definition tryRest0 :: "site \<Rightarrow> bool" where
  "tryRest0 env =
     ((endpoint_of env \<noteq> [] \<and> ParseUrl_protocol env (endpoint_of env) = HTTP)
      \<or> flag env ''SDK-INTERNAL-UseTtsEngine-Rest'' \<or> flag env ''CARBON-INTERNAL-UseTtsEngine-Rest'')"

definition tryUsp :: "site \<Rightarrow> bool" where
  "tryUsp env =
     ((endpoint_of env \<noteq> [] \<and> ParseUrl_protocol env (endpoint_of env) \<noteq> HTTP
         \<and> ParseUrl_protocol env (endpoint_of env) = WebSocket)
      \<or> flag env ''SDK-INTERNAL-UseTtsEngine-Usp'' \<or> flag env ''CARBON-INTERNAL-UseTtsEngine-Usp'')"

definition tryRest :: "site \<Rightarrow> bool" where
  "tryRest env =
     (if \<not> tryMock env \<and> \<not> tryRest0 env \<and> \<not> tryUsp env \<and> \<not> tryLocal env then True
      else tryRest0 env)"

definition InitializeTtsEngineAdapter :: "site \<Rightarrow> synthesizer \<Rightarrow> fault + synthesizer" where
  "InitializeTtsEngineAdapter env s0 =
     (let s1 = (if m_ttsAdapter s0 = None \<and> tryRest env
                then SpxCreateObjectWithSite env ''CSpxRestTtsEngineAdapter'' s0 else s0);
          s2 = (if m_ttsAdapter s1 = None \<and> tryUsp env
                then SpxCreateObjectWithSite env ''CSpxUspTtsEngineAdapter'' s1 else s1);
          s3 = (if m_ttsAdapter s2 = None \<and> tryMock env
                then SpxCreateObjectWithSite env ''CSpxMockTtsEngineAdapter'' s2 else s2);
          s4 = (if m_ttsAdapter s3 = None \<and> tryLocal env
                then SpxCreateObjectWithSite env ''CSpxLocalTtsEngineAdapter'' s3 else s3)
      in if m_ttsAdapter s4 = None then Inl SPXERR_NOT_FOUND else Inr s4)"

definition EnsureTtsEngineAdapter :: "site \<Rightarrow> synthesizer \<Rightarrow> fault + synthesizer" where
  "EnsureTtsEngineAdapter env s =
     (if m_ttsAdapter s = None then InitializeTtsEngineAdapter env s else Inr s)"

text \<open>The four explicit overrides of the selection, each the disjunction of its two keys.\<close>

definition rest_flag :: "site \<Rightarrow> bool" where
  "rest_flag env = (flag env ''SDK-INTERNAL-UseTtsEngine-Rest'' \<or> flag env ''CARBON-INTERNAL-UseTtsEngine-Rest'')"

definition usp_flag :: "site \<Rightarrow> bool" where
  "usp_flag env = (flag env ''SDK-INTERNAL-UseTtsEngine-Usp'' \<or> flag env ''CARBON-INTERNAL-UseTtsEngine-Usp'')"

section \<open>Event bus\<close>

text \<open>
  Modelled from the spec: \<open>EventSignal\<close>, which is declared outside the file. A signal
  holds zero or more callback entries; \<open>Connect\<close> adds one, \<open>Disconnect\<close> removes a
  given one, \<open>DisconnectAll\<close> removes all, \<open>IsConnected\<close> says whether any is left,
  and \<open>Signal\<close> invokes every registered callback with the event arguments.
\<close>

definition signal_Connect :: "callback \<Rightarrow> signal \<Rightarrow> signal" where
  "signal_Connect cb sg = sg @ [cb]"

definition signal_Disconnect :: "callback \<Rightarrow> signal \<Rightarrow> signal" where
  "signal_Disconnect cb sg = removeAll cb sg"

definition signal_DisconnectAll :: "signal \<Rightarrow> signal" where
  "signal_DisconnectAll sg = []"

definition signal_IsConnected :: "signal \<Rightarrow> bool" where
  "signal_IsConnected sg = (sg \<noteq> [])"

definition signal_Signal :: "subscriber \<Rightarrow> signal \<Rightarrow> SynthesisResult \<Rightarrow> synthesizer \<Rightarrow> synthesizer" where
  "signal_Signal object sg result s =
     s \<lparr> effects := effects s @ map (\<lambda>cb. CallbackInvoked object cb result) sg \<rparr>"

text \<open>
  The scan that opens every \<open>Connect...Callback\<close> and \<open>Disconnect...Callback\<close>:
  the iterator advances while it is not at the end and the entry's key is not \<open>object\<close>.
  The iterator is the position in the list; the length of the list is \<open>end()\<close>.
\<close>

fun scan :: "subscriber \<Rightarrow> event_table \<Rightarrow> nat" where
  "scan object [] = 0"
| "scan object (e # es) = (if fst e \<noteq> object then Suc (scan object es) else 0)"

text \<open>
  The body shared by the four \<open>Connect...Callback\<close> functions, which differ in the table
  (and its mutex) only: connect to the signal found, or \<open>emplace_front\<close> a new signal.
\<close>

definition ConnectCallback :: "event_table \<Rightarrow> subscriber \<Rightarrow> callback \<Rightarrow> event_table" where
  "ConnectCallback tbl object cb =
     (let i = scan object tbl in
      if i \<noteq> length tbl
      then tbl [i := (fst (tbl ! i), signal_Connect cb (snd (tbl ! i)))]
      else (object, signal_Connect cb []) # tbl)"

text \<open>
  The body shared by the four \<open>Disconnect...Callback\<close> functions. \<open>std::list::remove\<close>
  erases every element equal to its argument, here the entry the iterator points to.
  Every entry owns the signal that \<open>make_shared\<close> created for it, so two entries
  are equal only if they are the same entry or carry the same key and the same callbacks.
\<close>

definition DisconnectCallback :: "event_table \<Rightarrow> subscriber \<Rightarrow> callback option \<Rightarrow> event_table" where
  "DisconnectCallback tbl object callback =
     (let i = scan object tbl in
      if i \<noteq> length tbl
      then (let sg = (case callback of
                        Some cb \<Rightarrow> signal_Disconnect cb (snd (tbl ! i))
                      | None \<Rightarrow> signal_DisconnectAll (snd (tbl ! i)));
                tbl' = tbl [i := (fst (tbl ! i), sg)]
            in if \<not> signal_IsConnected (snd (tbl' ! i)) then removeAll (tbl' ! i) tbl' else tbl')
      else tbl)"

definition ConnectSynthesisStartedCallback :: "subscriber \<Rightarrow> callback \<Rightarrow> synthesizer \<Rightarrow> synthesizer" where
  "ConnectSynthesisStartedCallback object cb s =
     s \<lparr> SynthesisStarted := ConnectCallback (SynthesisStarted s) object cb \<rparr>"

definition ConnectSynthesizingCallback :: "subscriber \<Rightarrow> callback \<Rightarrow> synthesizer \<Rightarrow> synthesizer" where
  "ConnectSynthesizingCallback object cb s =
     s \<lparr> Synthesizing := ConnectCallback (Synthesizing s) object cb \<rparr>"

definition ConnectSynthesisCompletedCallback :: "subscriber \<Rightarrow> callback \<Rightarrow> synthesizer \<Rightarrow> synthesizer" where
  "ConnectSynthesisCompletedCallback object cb s =
     s \<lparr> SynthesisCompleted := ConnectCallback (SynthesisCompleted s) object cb \<rparr>"

definition ConnectSynthesisCanceledCallback :: "subscriber \<Rightarrow> callback \<Rightarrow> synthesizer \<Rightarrow> synthesizer" where
  "ConnectSynthesisCanceledCallback object cb s =
     s \<lparr> SynthesisCanceled := ConnectCallback (SynthesisCanceled s) object cb \<rparr>"

definition DisconnectSynthesisStartedCallback :: "subscriber \<Rightarrow> callback option \<Rightarrow> synthesizer \<Rightarrow> synthesizer" where
  "DisconnectSynthesisStartedCallback object callback s =
     s \<lparr> SynthesisStarted := DisconnectCallback (SynthesisStarted s) object callback \<rparr>"

definition DisconnectSynthesizingCallback :: "subscriber \<Rightarrow> callback option \<Rightarrow> synthesizer \<Rightarrow> synthesizer" where
  "DisconnectSynthesizingCallback object callback s =
     s \<lparr> Synthesizing := DisconnectCallback (Synthesizing s) object callback \<rparr>"

definition DisconnectSynthesisCompletedCallback :: "subscriber \<Rightarrow> callback option \<Rightarrow> synthesizer \<Rightarrow> synthesizer" where
  "DisconnectSynthesisCompletedCallback object callback s =
     s \<lparr> SynthesisCompleted := DisconnectCallback (SynthesisCompleted s) object callback \<rparr>"

definition DisconnectSynthesisCanceledCallback :: "subscriber \<Rightarrow> callback option \<Rightarrow> synthesizer \<Rightarrow> synthesizer" where
  "DisconnectSynthesisCanceledCallback object callback s =
     s \<lparr> SynthesisCanceled := DisconnectCallback (SynthesisCanceled s) object callback \<rparr>"

text \<open>The table of an event kind, and the connect and disconnect function of that kind.\<close>

fun table_of :: "event_kind \<Rightarrow> synthesizer \<Rightarrow> event_table" where
  "table_of Started s = SynthesisStarted s"
| "table_of InProgress s = Synthesizing s"
| "table_of Completed s = SynthesisCompleted s"
| "table_of CanceledEvent s = SynthesisCanceled s"

fun Connect_of :: "event_kind \<Rightarrow> subscriber \<Rightarrow> callback \<Rightarrow> synthesizer \<Rightarrow> synthesizer" where
  "Connect_of Started = ConnectSynthesisStartedCallback"
| "Connect_of InProgress = ConnectSynthesizingCallback"
| "Connect_of Completed = ConnectSynthesisCompletedCallback"
| "Connect_of CanceledEvent = ConnectSynthesisCanceledCallback"

fun Disconnect_of :: "event_kind \<Rightarrow> subscriber \<Rightarrow> callback option \<Rightarrow> synthesizer \<Rightarrow> synthesizer" where
  "Disconnect_of Started = DisconnectSynthesisStartedCallback"
| "Disconnect_of InProgress = DisconnectSynthesizingCallback"
| "Disconnect_of Completed = DisconnectSynthesisCompletedCallback"
| "Disconnect_of CanceledEvent = DisconnectSynthesisCanceledCallback"

text \<open>
  \<open>FireSynthesisEvent\<close> walks its copy of the table. For every entry it asks the factory
  for a \<open>CSpxSynthesisEventArgs\<close> object, initialises it with the result
  (\<open>argsInit->Init\<close>, a null dereference when the factory returned none) and signals the
  entry. An entry's signal is never null (both places that store one create it with
  \<open>make_shared\<close>), so the test \<open>pevent != nullptr\<close> always succeeds.
\<close>

fun FireSynthesisEvent :: "site \<Rightarrow> event_table \<Rightarrow> SynthesisResult \<Rightarrow> synthesizer \<Rightarrow> fault + synthesizer" where
  "FireSynthesisEvent env [] result s = Inr s"
| "FireSynthesisEvent env (e # es) result s =
     (let synthEvent = SpxCreateObjectWithSite_blank env ''CSpxSynthesisEventArgs'' s in
      if \<not> fst synthEvent then Inl NullPointerDereference
      else FireSynthesisEvent env es result (signal_Signal (fst e) (snd e) result (snd synthEvent)))"

definition FireSynthesisStarted :: "site \<Rightarrow> SynthesisResult \<Rightarrow> synthesizer \<Rightarrow> fault + synthesizer" where
  "FireSynthesisStarted env result s =
     FireSynthesisEvent env (SynthesisStarted s) result
       (s \<lparr> effects := effects s @ [EventFired Started result] \<rparr>)"

definition FireSynthesizing :: "site \<Rightarrow> SynthesisResult \<Rightarrow> synthesizer \<Rightarrow> fault + synthesizer" where
  "FireSynthesizing env result s =
     FireSynthesisEvent env (Synthesizing s) result
       (s \<lparr> effects := effects s @ [EventFired InProgress result] \<rparr>)"

definition FireSynthesisCompleted :: "site \<Rightarrow> SynthesisResult \<Rightarrow> synthesizer \<Rightarrow> fault + synthesizer" where
  "FireSynthesisCompleted env result s =
     FireSynthesisEvent env (SynthesisCompleted s) result
       (s \<lparr> effects := effects s @ [EventFired Completed result] \<rparr>)"

definition FireSynthesisCanceled :: "site \<Rightarrow> SynthesisResult \<Rightarrow> synthesizer \<Rightarrow> fault + synthesizer" where
  "FireSynthesisCanceled env result s =
     FireSynthesisEvent env (SynthesisCanceled s) result
       (s \<lparr> effects := effects s @ [EventFired CanceledEvent result] \<rparr>)"

definition FireResultEvent :: "site \<Rightarrow> SynthesisResult \<Rightarrow> synthesizer \<Rightarrow> fault + synthesizer" where
  "FireResultEvent env result s =
     (case reason result of
        SynthesizingAudioStarted \<Rightarrow> FireSynthesisStarted env result s
      | SynthesizingAudio \<Rightarrow> FireSynthesizing env result s
      | SynthesizingAudioCompleted \<Rightarrow> FireSynthesisCompleted env result s
      | Canceled \<Rightarrow> FireSynthesisCanceled env result s
      | OtherReason n \<Rightarrow> Inr s)"

text \<open>
  \<open>FireWordBoundary\<close> asks the factory for a \<open>CSpxWordBoundaryEventArgs\<close> object,
  initialises it with the offsets and signals \<open>WordBoundary\<close>.
\<close>

definition FireWordBoundary :: "site \<Rightarrow> 64 word \<Rightarrow> 32 word \<Rightarrow> 32 word \<Rightarrow> synthesizer \<Rightarrow> fault + synthesizer" where
  "FireWordBoundary env audioOffset textOffset wordLength s =
     (let wordBoundaryEvent = SpxCreateObjectWithSite_blank env ''CSpxWordBoundaryEventArgs'' s in
      if \<not> fst wordBoundaryEvent then Inl NullPointerDereference
      else Inr ((snd wordBoundaryEvent)
                  \<lparr> effects := effects (snd wordBoundaryEvent)
                       @ [WordBoundarySignalled audioOffset textOffset wordLength] \<rparr>))"

section \<open>Request queue\<close>

definition PushRequestIntoQueue :: "request_id \<Rightarrow> synthesizer \<Rightarrow> synthesizer" where
  "PushRequestIntoQueue rid s =
     s \<lparr> m_requestQueue := m_requestQueue s @ [rid], effects := effects s @ [QueuePushed rid] \<rparr>"

text \<open>
  \<open>m_cv.wait(lock, pred)\<close> returns once \<open>pred\<close> holds: the front of the queue is the
  request. Run on its own, with no other thread to pop the queue, a wait whose predicate is
  false never returns.
\<close>

definition WaitUntilRequestInFrontOfQueue :: "request_id \<Rightarrow> synthesizer \<Rightarrow> fault + synthesizer" where
  "WaitUntilRequestInFrontOfQueue rid s =
     (case m_requestQueue s of
        [] \<Rightarrow> Inl FrontOfEmptyQueue
      | front # rest \<Rightarrow>
          if front = rid then Inr (s \<lparr> effects := effects s @ [QueueFront rid] \<rparr>)
          else Inl WaitsForever)"

definition PopRequestFromQueue :: "synthesizer \<Rightarrow> fault + synthesizer" where
  "PopRequestFromQueue s =
     (case m_requestQueue s of
        [] \<Rightarrow> Inl PopOfEmptyQueue
      | front # rest \<Rightarrow> Inr (s \<lparr> m_requestQueue := rest, effects := effects s @ [QueuePopped] \<rparr>))"

section \<open>Results, \<open>Write\<close> and the calls on the collaborators\<close>

definition InitSynthesisResult ::
  "request_id \<Rightarrow> ResultReason \<Rightarrow> CancellationReason \<Rightarrow> CancellationErrorCode \<Rightarrow> buffer \<Rightarrow> nat
   \<Rightarrow> buffer \<Rightarrow> bool \<Rightarrow> SynthesisResult" where
  "InitSynthesisResult rid rsn creason code audio len fmt hdr =
     \<lparr> requestId = rid, reason = rsn, cancel_reason = creason, error_code = code,
       audio_buffer = audio, audio_length = len, format = fmt, has_header = hdr,
       events = False, futureResult = None \<rparr>"

text \<open>
  \<open>CreateResult\<close> asks the audio output for its format (a null \<open>m_audioOutput\<close> makes
  \<open>SpxQueryInterface\<close> return null, which line 497 dereferences), asks the factory for a
  \<open>CSpxSynthesisResult\<close> object, initialises it (\<open>resultInit->InitSynthesisResult\<close>,
  a null dereference when the factory returned none) and sets its events. It returns the
  result; the synthesizer it leaves has the request to the factory in its log.
\<close>

definition CreateResult ::
  "site \<Rightarrow> request_id \<Rightarrow> ResultReason \<Rightarrow> buffer \<Rightarrow> nat \<Rightarrow> synthesizer
   \<Rightarrow> fault + (SynthesisResult \<times> synthesizer)" where
  "CreateResult env rid rsn audio len s =
     (case m_audioOutput s of
        None \<Rightarrow> Inl NullPointerDereference
      | Some out \<Rightarrow>
          (let result = SpxCreateObjectWithSite_blank env ''CSpxSynthesisResult'' s in
           if \<not> fst result then Inl NullPointerDereference
           else Inr ((InitSynthesisResult rid rsn REASON_CANCELED_NONE NoError audio len
                        (GetFormat out) (HasHeader out)) \<lparr> events := True \<rparr>,
                     snd result)))"

definition Write ::
  "site \<Rightarrow> request_id \<Rightarrow> buffer \<Rightarrow> 32 word \<Rightarrow> synthesizer \<Rightarrow> fault + (32 word \<times> synthesizer)" where
  "Write env rid buf sz s =
     (case CreateResult env rid SynthesizingAudio buf (unat sz) s of
        Inl e \<Rightarrow> Inl e
      | Inr result \<Rightarrow>
     (case FireResultEvent env (fst result) (snd result) of
        Inl e \<Rightarrow> Inl e
      | Inr s1 \<Rightarrow>
     (case m_audioOutput s1 of
        None \<Rightarrow> Inl NullPointerDereference
      | Some out \<Rightarrow>
          Inr (output_Write out buf sz, s1 \<lparr> effects := effects s1 @ [OutputWrite buf sz] \<rparr>))))"

text \<open>
  \<open>m_ttsAdapter->Speak(text, isSsml, requestId)\<close>: the adapter hands each chunk it
  produces to \<open>Write\<close> under the request id it was given, then returns its result.
\<close>

fun write_chunks ::
  "site \<Rightarrow> request_id \<Rightarrow> (buffer \<times> 32 word) list \<Rightarrow> synthesizer \<Rightarrow> fault + synthesizer" where
  "write_chunks env rid [] s = Inr s"
| "write_chunks env rid (c # cs) s =
     (case Write env rid (fst c) (snd c) s of
        Inl e \<Rightarrow> Inl e
      | Inr r \<Rightarrow> write_chunks env rid cs (snd r))"

definition ttsAdapter_Speak ::
  "site \<Rightarrow> string \<Rightarrow> bool \<Rightarrow> request_id \<Rightarrow> synthesizer \<Rightarrow> fault + (SynthesisResult \<times> synthesizer)" where
  "ttsAdapter_Speak env text isSsml rid s =
     (case m_ttsAdapter s of
        None \<Rightarrow> Inl NullPointerDereference
      | Some a \<Rightarrow>
          (case write_chunks env rid (fst (adapter_Speak a text isSsml rid))
                  (s \<lparr> effects := effects s @ [AdapterSpeak text isSsml rid] \<rparr>) of
             Inl e \<Rightarrow> Inl e
           | Inr s' \<Rightarrow> Inr (snd (adapter_Speak a text isSsml rid), s')))"

definition audioOutput_WaitUntilDone :: "synthesizer \<Rightarrow> fault + synthesizer" where
  "audioOutput_WaitUntilDone s =
     (case m_audioOutput s of
        None \<Rightarrow> Inl NullPointerDereference
      | Some out \<Rightarrow> Inr (s \<lparr> effects := effects s @ [OutputWaitUntilDone] \<rparr>))"

definition audioOutput_Close :: "synthesizer \<Rightarrow> fault + synthesizer" where
  "audioOutput_Close s =
     (case m_audioOutput s of
        None \<Rightarrow> Inl NullPointerDereference
      | Some out \<Rightarrow> Inr (s \<lparr> effects := effects s @ [OutputClose] \<rparr>))"

section \<open>Life cycle of the synthesizer\<close>

definition CheckLogFilename :: "site \<Rightarrow> synthesizer \<Rightarrow> synthesizer" where
  "CheckLogFilename env s =
     (let filename = GetStringValue env (GetPropertyName env Speech_LogFilename) [] in
      if filename \<noteq> [] then s \<lparr> effects := effects s @ [LogFilenameSet filename] \<rparr> else s)"

definition Init :: "site \<Rightarrow> synthesizer \<Rightarrow> fault + synthesizer" where
  "Init env s = EnsureTtsEngineAdapter env (CheckLogFilename env (s \<lparr> m_siteKeepAlive := True \<rparr>))"

definition ReleaseTtsEngineAdapter :: "synthesizer \<Rightarrow> synthesizer" where
  "ReleaseTtsEngineAdapter s =
     (if m_ttsAdapter s \<noteq> None then s \<lparr> effects := effects s @ [AdapterTerm] \<rparr> else s)"

definition Term :: "synthesizer \<Rightarrow> fault + synthesizer" where
  "Term s =
     (case audioOutput_Close (ReleaseTtsEngineAdapter s) of
        Inl e \<Rightarrow> Inl e
      | Inr s' \<Rightarrow> Inr (s' \<lparr> m_siteKeepAlive := False \<rparr>))"

definition IsEnabled :: "synthesizer \<Rightarrow> bool" where
  "IsEnabled s = m_fEnabled s"

definition Enable :: "synthesizer \<Rightarrow> synthesizer" where
  "Enable s = s \<lparr> m_fEnabled := True \<rparr>"

definition Disable :: "synthesizer \<Rightarrow> synthesizer" where
  "Disable s = s \<lparr> m_fEnabled := False \<rparr>"

definition SetOutput :: "audio_output option \<Rightarrow> synthesizer \<Rightarrow> fault + synthesizer" where
  "SetOutput output s =
     (let s1 = s \<lparr> m_audioOutput := output \<rparr> in
      case m_ttsAdapter s1 of
        None \<Rightarrow> Inl NullPointerDereference
      | Some a \<Rightarrow> Inr (s1 \<lparr> effects := effects s1 @ [AdapterSetOutput] \<rparr>))"

definition Close :: "synthesizer \<Rightarrow> fault + synthesizer" where
  "Close s = audioOutput_Close s"

section \<open>The Speak family\<close>

text \<open>
  \<open>Speak\<close>, lines 80-113, statement by statement. \<open>SetEvents\<close> on the adapter's result
  is the update of its \<open>events\<close> field.
\<close>

definition Speak ::
  "site \<Rightarrow> string \<Rightarrow> bool \<Rightarrow> request_id \<Rightarrow> synthesizer \<Rightarrow> fault + (SynthesisResult \<times> synthesizer)" where
  "Speak env text isSsml rid s =
     (case WaitUntilRequestInFrontOfQueue rid (PushRequestIntoQueue rid s) of
        Inl e \<Rightarrow> Inl e
      | Inr s2 \<Rightarrow>
     (case CreateResult env rid SynthesizingAudioStarted [] 0 s2 of
        Inl e \<Rightarrow> Inl e
      | Inr synthesisStartedResult \<Rightarrow>
     (case FireResultEvent env (fst synthesisStartedResult) (snd synthesisStartedResult) of
        Inl e \<Rightarrow> Inl e
      | Inr s3 \<Rightarrow>
     (case ttsAdapter_Speak env text isSsml rid s3 of
        Inl e \<Rightarrow> Inl e
      | Inr r \<Rightarrow>
     (case audioOutput_WaitUntilDone (snd r) of
        Inl e \<Rightarrow> Inl e
      | Inr s5 \<Rightarrow>
     (let synthesisDoneResult = (fst r) \<lparr> events := True \<rparr> in
      case FireResultEvent env synthesisDoneResult s5 of
        Inl e \<Rightarrow> Inl e
      | Inr s6 \<Rightarrow>
     (case PopRequestFromQueue s6 of
        Inl e \<Rightarrow> Inl e
      | Inr s7 \<Rightarrow> Inr (synthesisDoneResult, s7))))))))"

text \<open>
  \<open>StartSpeaking\<close>, lines 126-169: the statements the calling thread runs. The lambda of
  lines 142-161 is \<open>StartSpeaking_task\<close>; \<open>std::async\<close> starts it on another thread, and
  the call returns the Started result with the \<open>CSpxAsyncOp\<close> of that task attached.
\<close>

definition StartSpeaking ::
  "site \<Rightarrow> string \<Rightarrow> bool \<Rightarrow> request_id \<Rightarrow> synthesizer \<Rightarrow> fault + (SynthesisResult \<times> synthesizer)" where
  "StartSpeaking env text isSsml rid s =
     (case WaitUntilRequestInFrontOfQueue rid (PushRequestIntoQueue rid s) of
        Inl e \<Rightarrow> Inl e
      | Inr s2 \<Rightarrow>
     (case CreateResult env rid SynthesizingAudioStarted [] 0 s2 of
        Inl e \<Rightarrow> Inl e
      | Inr synthesisStartedResult \<Rightarrow>
     (case FireResultEvent env (fst synthesisStartedResult) (snd synthesisStartedResult) of
        Inl e \<Rightarrow> Inl e
      | Inr s3 \<Rightarrow>
          Inr ((fst synthesisStartedResult)
                 \<lparr> futureResult := Some \<lparr> task = StartSpeaking_lambda, task_requestId = rid,
                                         task_text = text, task_isSsml = isSsml,
                                         state = AOS_Started \<rparr> \<rparr>,
               s3))))"

definition StartSpeaking_task ::
  "site \<Rightarrow> CSpxAsyncOp \<Rightarrow> synthesizer \<Rightarrow> fault + (SynthesisResult \<times> synthesizer)" where
  "StartSpeaking_task env op s =
     (case ttsAdapter_Speak env (task_text op) (task_isSsml op) (task_requestId op) s of
        Inl e \<Rightarrow> Inl e
      | Inr r \<Rightarrow>
     (case audioOutput_WaitUntilDone (snd r) of
        Inl e \<Rightarrow> Inl e
      | Inr s5 \<Rightarrow>
     (let synthesisDoneResult = (fst r) \<lparr> events := True \<rparr> in
      case FireResultEvent env synthesisDoneResult s5 of
        Inl e \<Rightarrow> Inl e
      | Inr s6 \<Rightarrow>
     (case PopRequestFromQueue s6 of
        Inl e \<Rightarrow> Inl e
      | Inr s7 \<Rightarrow> Inr (synthesisDoneResult, s7)))))"

text \<open>
  \<open>SpeakAsync\<close> and \<open>StartSpeakingAsync\<close> start their lambda and return its
  \<open>CSpxAsyncOp\<close>; the calling thread does nothing else.
\<close>

definition SpeakAsync :: "string \<Rightarrow> bool \<Rightarrow> request_id \<Rightarrow> CSpxAsyncOp" where
  "SpeakAsync text isSsml rid =
     \<lparr> task = Speak_lambda, task_requestId = rid, task_text = text, task_isSsml = isSsml,
       state = AOS_Started \<rparr>"

definition StartSpeakingAsync :: "string \<Rightarrow> bool \<Rightarrow> request_id \<Rightarrow> CSpxAsyncOp" where
  "StartSpeakingAsync text isSsml rid =
     \<lparr> task = StartSpeakingAsync_lambda, task_requestId = rid, task_text = text,
       task_isSsml = isSsml, state = AOS_Started \<rparr>"

text \<open>What a background task does when it runs: the body of its lambda.\<close>

definition run_task :: "site \<Rightarrow> CSpxAsyncOp \<Rightarrow> synthesizer \<Rightarrow> fault + (SynthesisResult \<times> synthesizer)" where
  "run_task env op s =
     (case task op of
        Speak_lambda \<Rightarrow> Speak env (task_text op) (task_isSsml op) (task_requestId op) s
      | StartSpeaking_lambda \<Rightarrow> StartSpeaking_task env op s
      | StartSpeakingAsync_lambda \<Rightarrow>
          StartSpeaking env (task_text op) (task_isSsml op) (task_requestId op) s)"

section \<open>The operations of the class, as one type\<close>

datatype operation =
    OpInit
  | OpTerm
  | OpIsEnabled
  | OpEnable
  | OpDisable
  | OpSetOutput "audio_output option"
  | OpSpeak string bool request_id
  | OpSpeakAsync string bool request_id
  | OpStartSpeaking string bool request_id
  | OpStartSpeakingAsync string bool request_id
  | OpRunTask CSpxAsyncOp
  | OpClose
  | OpConnect event_kind subscriber callback
  | OpDisconnect event_kind subscriber "callback option"
  | OpFireWordBoundary "64 word" "32 word" "32 word"
  | OpWrite request_id buffer "32 word"

definition state_of :: "fault + ('a \<times> synthesizer) \<Rightarrow> fault + synthesizer" where
  "state_of r = (case r of Inl e \<Rightarrow> Inl e | Inr v \<Rightarrow> Inr (snd v))"

fun perform :: "site \<Rightarrow> operation \<Rightarrow> synthesizer \<Rightarrow> fault + synthesizer" where
  "perform env OpInit s = Init env s"
| "perform env OpTerm s = Term s"
| "perform env OpIsEnabled s = Inr s"
| "perform env OpEnable s = Inr (Enable s)"
| "perform env OpDisable s = Inr (Disable s)"
| "perform env (OpSetOutput output) s = SetOutput output s"
| "perform env (OpSpeak text isSsml rid) s = state_of (Speak env text isSsml rid s)"
| "perform env (OpSpeakAsync text isSsml rid) s = Inr s"
| "perform env (OpStartSpeaking text isSsml rid) s = state_of (StartSpeaking env text isSsml rid s)"
| "perform env (OpStartSpeakingAsync text isSsml rid) s = Inr s"
| "perform env (OpRunTask op) s = state_of (run_task env op s)"
| "perform env OpClose s = Close s"
| "perform env (OpConnect kind object cb) s = Inr (Connect_of kind object cb s)"
| "perform env (OpDisconnect kind object callback) s = Inr (Disconnect_of kind object callback s)"
| "perform env (OpFireWordBoundary audioOffset textOffset wordLength) s =
     FireWordBoundary env audioOffset textOffset wordLength s"
| "perform env (OpWrite rid buf sz) s = state_of (Write env rid buf sz s)"

text \<open>The calls of the Speak family, and the background tasks they start.\<close>

fun speak_family :: "operation \<Rightarrow> bool" where
  "speak_family (OpSpeak text isSsml rid) = True"
| "speak_family (OpSpeakAsync text isSsml rid) = True"
| "speak_family (OpStartSpeaking text isSsml rid) = True"
| "speak_family (OpStartSpeakingAsync text isSsml rid) = True"
| "speak_family (OpRunTask op) = True"
| "speak_family other = False"

text \<open>The class names that the object factory was asked for, in order.\<close>

fun objects_requested :: "effect list \<Rightarrow> string list" where
  "objects_requested [] = []"
| "objects_requested (ObjectRequested cls # es) = cls # objects_requested es"
| "objects_requested (e # es) = objects_requested es"

text \<open>
  The four adapter classes of lines 599-621, and the requests to the factory for one of
  them.
\<close>

definition adapter_classes :: "string list" where
  "adapter_classes =
     [''CSpxRestTtsEngineAdapter'', ''CSpxUspTtsEngineAdapter'', ''CSpxMockTtsEngineAdapter'',
      ''CSpxLocalTtsEngineAdapter'']"

definition adapters_requested :: "effect list \<Rightarrow> string list" where
  "adapters_requested es = filter (\<lambda>cls. cls \<in> set adapter_classes) (objects_requested es)"

text \<open>
  What a synthesizer has had constructed as its adapter: the adapter it holds, and the
  requests made to the factory for an adapter class.
\<close>

definition constructed :: "synthesizer \<Rightarrow> tts_adapter option \<times> string list" where
  "constructed s = (m_ttsAdapter s, adapters_requested (effects s))"

section \<open>The behaviour the specification describes, for comparison with the code\<close>

text \<open>
  The selection policy in the specification's words: the variants in their precedence
  order, each with its condition; the candidates are those whose condition holds.
\<close>

definition precedence :: "(string \<times> (site \<Rightarrow> bool)) list" where
  "precedence =
     [(''CSpxRestTtsEngineAdapter'', tryRest), (''CSpxUspTtsEngineAdapter'', tryUsp),
      (''CSpxMockTtsEngineAdapter'', tryMock), (''CSpxLocalTtsEngineAdapter'', tryLocal)]"

definition candidates :: "site \<Rightarrow> string list" where
  "candidates env = map fst (filter (\<lambda>v. snd v env) precedence)"

text \<open>
  Asking the factory for the candidates one after the other, until the synthesizer has an
  adapter.
\<close>

fun try_in_order :: "site \<Rightarrow> string list \<Rightarrow> synthesizer \<Rightarrow> synthesizer" where
  "try_in_order env [] s = s"
| "try_in_order env (cls # later) s =
     (if m_ttsAdapter s = None then try_in_order env later (SpxCreateObjectWithSite env cls s)
      else s)"

text \<open>
  The trace of signalling a table: for every entry the request for the event arguments,
  then the entry's callbacks. The whole trace of one firing. A table can be signalled if it
  is empty or the factory has the class of the event arguments.
\<close>

definition callbacks_of :: "event_table \<Rightarrow> SynthesisResult \<Rightarrow> effect list" where
  "callbacks_of tbl result =
     concat (map (\<lambda>e. ObjectRequested ''CSpxSynthesisEventArgs''
                        # map (\<lambda>cb. CallbackInvoked (fst e) cb result) (snd e)) tbl)"

definition signals :: "site \<Rightarrow> event_table \<Rightarrow> bool" where
  "signals env tbl = (tbl = [] \<or> Creates env ''CSpxSynthesisEventArgs'')"

definition table_for :: "synthesizer \<Rightarrow> SynthesisResult \<Rightarrow> event_table" where
  "table_for s result =
     (case reason result of
        SynthesizingAudioStarted \<Rightarrow> SynthesisStarted s
      | SynthesizingAudio \<Rightarrow> Synthesizing s
      | SynthesizingAudioCompleted \<Rightarrow> SynthesisCompleted s
      | Canceled \<Rightarrow> SynthesisCanceled s
      | OtherReason n \<Rightarrow> [])"

definition fired :: "synthesizer \<Rightarrow> SynthesisResult \<Rightarrow> effect list" where
  "fired s result =
     (case reason result of
        SynthesizingAudioStarted \<Rightarrow> EventFired Started result # callbacks_of (SynthesisStarted s) result
      | SynthesizingAudio \<Rightarrow> EventFired InProgress result # callbacks_of (Synthesizing s) result
      | SynthesizingAudioCompleted \<Rightarrow> EventFired Completed result # callbacks_of (SynthesisCompleted s) result
      | Canceled \<Rightarrow> EventFired CanceledEvent result # callbacks_of (SynthesisCanceled s) result
      | OtherReason n \<Rightarrow> [])"

text \<open>The result that \<open>CreateResult\<close> builds against a given audio output.\<close>

definition created_result :: "audio_output \<Rightarrow> request_id \<Rightarrow> ResultReason \<Rightarrow> buffer \<Rightarrow> nat \<Rightarrow> SynthesisResult" where
  "created_result out rid rsn audio len =
     (InitSynthesisResult rid rsn REASON_CANCELED_NONE NoError audio len (GetFormat out) (HasHeader out))
       \<lparr> events := True \<rparr>"

text \<open>
  The trace of one chunk: the request for its result object, its Synthesizing event, then
  the write to the output.
\<close>

definition chunk_trace :: "synthesizer \<Rightarrow> audio_output \<Rightarrow> request_id \<Rightarrow> buffer \<times> 32 word \<Rightarrow> effect list" where
  "chunk_trace s out rid c =
     ObjectRequested ''CSpxSynthesisResult''
     # fired s (created_result out rid SynthesizingAudio (fst c) (unat (snd c)))
     @ [OutputWrite (fst c) (snd c)]"


section \<open>Concrete collaborators for the instances\<close>

definition test_output :: audio_output where
  "test_output = \<lparr> GetFormat = [1, 0], HasHeader = True, output_Write = (\<lambda>buf sz. sz) \<rparr>"

text \<open>An adapter that produces one chunk of three bytes and reports completion.\<close>

definition test_adapter :: "string \<Rightarrow> tts_adapter" where
  "test_adapter cls =
     \<lparr> class_name = cls,
       adapter_Speak = (\<lambda>text isSsml rid.
          ([([1, 2, 3], 3)],
           InitSynthesisResult rid SynthesizingAudioCompleted REASON_CANCELED_NONE NoError
             [1, 2, 3] 3 [1, 0] True)) \<rparr>"

text \<open>
  A site with a property list and a factory that knows the listed adapter classes only,
  and the classes of results and event arguments.
\<close>

definition test_site :: "(string \<times> string) list \<Rightarrow> string list \<Rightarrow> site" where
  "test_site props classes =
     \<lparr> properties = map_of props,
       GetPropertyName = (\<lambda>p. case p of SpeechServiceConnection_Endpoint \<Rightarrow> ''SPEECH-Endpoint''
                                 | Speech_LogFilename \<Rightarrow> ''SPEECH-LogFilename''),
       ToBool = (\<lambda>v. v = ''true''),
       BoolToString = (\<lambda>b. if b then ''true'' else ''false''),
       ParseUrl_protocol = (\<lambda>u. if take 4 u = ''http'' then HTTP
                               else if take 2 u = ''ws'' then WebSocket else OtherProtocol),
       CreateObject = (\<lambda>cls. if cls \<in> set classes then Some (test_adapter cls) else None),
       Creates = (\<lambda>cls. cls \<in> set [''CSpxSynthesisResult'', ''CSpxSynthesisEventArgs'',
                                      ''CSpxWordBoundaryEventArgs'']) \<rparr>"

text \<open>
  A synthesizer in use: REST adapter, an output, subscriber 1 on Started (callback 7) and on
  Synthesizing (callback 9), subscriber 2 on Started (callback 8) and on Completed
  (callback 6).
\<close>

definition test_synthesizer :: synthesizer where
  "test_synthesizer =
     \<lparr> m_fEnabled = True, m_siteKeepAlive = True,
       m_ttsAdapter = Some (test_adapter ''CSpxRestTtsEngineAdapter''),
       m_audioOutput = Some test_output, m_requestQueue = [],
       SynthesisStarted = [(1, [7]), (2, [8])], Synthesizing = [(1, [9])],
       SynthesisCompleted = [(2, [6])], SynthesisCanceled = [], effects = [] \<rparr>"

text \<open>The property list that sets the mock and the local override and nothing else.\<close>

definition mock_and_local :: "(string \<times> string) list" where
  "mock_and_local =
     [(''SDK-INTERNAL-UseTtsEngine-Mock'', ''true''), (''SDK-INTERNAL-UseTtsEngine-Local'', ''true'')]"

text \<open>The trace of \<open>Speak\<close> for the text \<open>hello\<close> and request \<open>r1\<close> on that synthesizer.\<close>

definition test_speak_trace :: "effect list" where
  "test_speak_trace =
     [QueuePushed ''r1'', QueueFront ''r1'',
      ObjectRequested ''CSpxSynthesisResult'',
      EventFired Started (created_result test_output ''r1'' SynthesizingAudioStarted [] 0),
      ObjectRequested ''CSpxSynthesisEventArgs'',
      CallbackInvoked 1 7 (created_result test_output ''r1'' SynthesizingAudioStarted [] 0),
      ObjectRequested ''CSpxSynthesisEventArgs'',
      CallbackInvoked 2 8 (created_result test_output ''r1'' SynthesizingAudioStarted [] 0),
      AdapterSpeak ''hello'' False ''r1'',
      ObjectRequested ''CSpxSynthesisResult'',
      EventFired InProgress (created_result test_output ''r1'' SynthesizingAudio [1, 2, 3] 3),
      ObjectRequested ''CSpxSynthesisEventArgs'',
      CallbackInvoked 1 9 (created_result test_output ''r1'' SynthesizingAudio [1, 2, 3] 3),
      OutputWrite [1, 2, 3] 3,
      OutputWaitUntilDone,
      EventFired Completed (created_result test_output ''r1'' SynthesizingAudioCompleted [1, 2, 3] 3),
      ObjectRequested ''CSpxSynthesisEventArgs'',
      CallbackInvoked 2 6 (created_result test_output ''r1'' SynthesizingAudioCompleted [1, 2, 3] 3),
      QueuePopped]"

section \<open>Concurrent requests\<close>

text \<open>
  Requests are submitted from any number of threads. Each of the four entry points, and
  each of the three lambdas, is the list of the statements it runs, in program order. The
  statements that act on the synthesizer are those of lines 86-110 and 132-158;
  \<open>S_async\<close> is \<open>std::async(std::launch::async, lambda)\<close>, which starts a thread for
  the lambda; \<open>S_return\<close> is the return from the named function or lambda.
\<close>

datatype function_name = F_Speak | F_SpeakAsync | F_StartSpeaking | F_StartSpeakingAsync | F_lambda lambda

datatype stmt =
    S_PushRequestIntoQueue
  | S_WaitUntilRequestInFrontOfQueue
  | S_FireStarted
  | S_AdapterSpeak
  | S_WaitUntilDone
  | S_FireTerminal
  | S_PopRequestFromQueue
  | S_async lambda
  | S_SetFutureResult
  | S_return function_name

definition Speak_body :: "stmt list" where
  "Speak_body =
     [S_PushRequestIntoQueue, S_WaitUntilRequestInFrontOfQueue, S_FireStarted, S_AdapterSpeak,
      S_WaitUntilDone, S_FireTerminal, S_PopRequestFromQueue, S_return F_Speak]"

definition StartSpeaking_body :: "stmt list" where
  "StartSpeaking_body =
     [S_PushRequestIntoQueue, S_WaitUntilRequestInFrontOfQueue, S_FireStarted,
      S_async StartSpeaking_lambda, S_SetFutureResult, S_return F_StartSpeaking]"

fun lambda_body :: "lambda \<Rightarrow> stmt list" where
  "lambda_body Speak_lambda = Speak_body @ [S_return (F_lambda Speak_lambda)]"
| "lambda_body StartSpeaking_lambda =
     [S_AdapterSpeak, S_WaitUntilDone, S_FireTerminal, S_PopRequestFromQueue,
      S_return (F_lambda StartSpeaking_lambda)]"
| "lambda_body StartSpeakingAsync_lambda =
     StartSpeaking_body @ [S_return (F_lambda StartSpeakingAsync_lambda)]"

datatype convention = By_Speak | By_SpeakAsync | By_StartSpeaking | By_StartSpeakingAsync

fun entry :: "convention \<Rightarrow> stmt list" where
  "entry By_Speak = Speak_body"
| "entry By_SpeakAsync = [S_async Speak_lambda, S_return F_SpeakAsync]"
| "entry By_StartSpeaking = StartSpeaking_body"
| "entry By_StartSpeakingAsync = [S_async StartSpeakingAsync_lambda, S_return F_StartSpeakingAsync]"

text \<open>
  A thread works for one request: the request's id, text and flag, the statements it has
  still to run, and its local \<open>synthesisDoneResult\<close> once the adapter has returned.
\<close>

record thread =
  t_requestId :: request_id
  t_text :: string
  t_isSsml :: bool
  todo :: "stmt list"
  synthesisDoneResult :: "SynthesisResult option"

text \<open>
  One statement of a thread on the shared synthesizer: the new synthesizer and the thread's
  new \<open>synthesisDoneResult\<close>, or \<open>None\<close> when the statement cannot complete now (the wait
  whose request is not in front) or faults.
\<close>

fun exec :: "site \<Rightarrow> stmt \<Rightarrow> thread \<Rightarrow> synthesizer \<Rightarrow> (synthesizer \<times> SynthesisResult option) option" where
  "exec env S_PushRequestIntoQueue t s =
     Some (PushRequestIntoQueue (t_requestId t) s, synthesisDoneResult t)"
| "exec env S_WaitUntilRequestInFrontOfQueue t s =
     (case WaitUntilRequestInFrontOfQueue (t_requestId t) s of
        Inl e \<Rightarrow> None
      | Inr s' \<Rightarrow> Some (s', synthesisDoneResult t))"
| "exec env S_FireStarted t s =
     (case CreateResult env (t_requestId t) SynthesizingAudioStarted [] 0 s of
        Inl e \<Rightarrow> None
      | Inr synthesisStartedResult \<Rightarrow>
          (case FireResultEvent env (fst synthesisStartedResult) (snd synthesisStartedResult) of
             Inl e \<Rightarrow> None
           | Inr s' \<Rightarrow> Some (s', synthesisDoneResult t)))"
| "exec env S_AdapterSpeak t s =
     (case ttsAdapter_Speak env (t_text t) (t_isSsml t) (t_requestId t) s of
        Inl e \<Rightarrow> None
      | Inr r \<Rightarrow> Some (snd r, Some (fst r)))"
| "exec env S_WaitUntilDone t s =
     (case audioOutput_WaitUntilDone s of
        Inl e \<Rightarrow> None
      | Inr s' \<Rightarrow> Some (s', synthesisDoneResult t))"
| "exec env S_FireTerminal t s =
     (case synthesisDoneResult t of
        None \<Rightarrow> None
      | Some r \<Rightarrow>
          (case FireResultEvent env (r \<lparr> events := True \<rparr>) s of
             Inl e \<Rightarrow> None
           | Inr s' \<Rightarrow> Some (s', Some (r \<lparr> events := True \<rparr>))))"
| "exec env S_PopRequestFromQueue t s =
     (case PopRequestFromQueue s of
        Inl e \<Rightarrow> None
      | Inr s' \<Rightarrow> Some (s', synthesisDoneResult t))"
| "exec env (S_async l) t s = Some (s, synthesisDoneResult t)"
| "exec env S_SetFutureResult t s = Some (s, synthesisDoneResult t)"
| "exec env (S_return f) t s = Some (s, synthesisDoneResult t)"

text \<open>The thread that a statement starts: the lambda's body, with the captured request.\<close>

fun spawned :: "stmt \<Rightarrow> thread \<Rightarrow> thread list" where
  "spawned (S_async l) t = [t \<lparr> todo := lambda_body l, synthesisDoneResult := None \<rparr>]"
| "spawned c t = []"

text \<open>
  The process: the shared synthesizer, the threads, and the history of the statements run
  so far, each with the request it was run for.
\<close>

record process =
  shared :: synthesizer
  threads :: "thread list"
  history :: "(request_id \<times> stmt) list"

text \<open>Thread \<open>i\<close> runs its next statement.\<close>

definition step :: "site \<Rightarrow> nat \<Rightarrow> process \<Rightarrow> process option" where
  "step env i p =
     (if i < length (threads p)
      then (case todo (threads p ! i) of
              [] \<Rightarrow> None
            | c # rest \<Rightarrow>
                (case exec env c (threads p ! i) (shared p) of
                   None \<Rightarrow> None
                 | Some r \<Rightarrow>
                     Some \<lparr> shared = fst r,
                            threads = (threads p) [i := (threads p ! i) \<lparr> todo := rest,
                                                        synthesisDoneResult := snd r \<rparr>]
                                      @ spawned c (threads p ! i),
                            history = history p @ [(t_requestId (threads p ! i), c)] \<rparr>))
      else None)"

text \<open>A schedule names the thread of each step; any interleaving is some schedule.\<close>

fun run :: "site \<Rightarrow> nat list \<Rightarrow> process \<Rightarrow> process option" where
  "run env [] p = Some p"
| "run env (i # sched) p = (case step env i p of None \<Rightarrow> None | Some p' \<Rightarrow> run env sched p')"

text \<open>
  The requests of a run: id, calling convention, text and flag. Every request starts as
  one thread at the entry of its calling convention; a thread that is scheduled late is a
  request that is submitted late.
\<close>

record request =
  req_id :: request_id
  req_convention :: convention
  req_text :: string
  req_isSsml :: bool

definition first_thread :: "request \<Rightarrow> thread" where
  "first_thread r =
     \<lparr> t_requestId = req_id r, t_text = req_text r, t_isSsml = req_isSsml r,
       todo = entry (req_convention r), synthesisDoneResult = None \<rparr>"

definition start :: "synthesizer \<Rightarrow> request list \<Rightarrow> process" where
  "start s reqs = \<lparr> shared = s, threads = map first_thread reqs, history = [] \<rparr>"

definition finished :: "process \<Rightarrow> bool" where
  "finished p = list_all (\<lambda>t. todo t = []) (threads p)"

section \<open>What the log of a run shows\<close>

text \<open>
  The effects of a run that started from synthesizer \<open>s\<close>: what the log of the shared
  synthesizer holds beyond the log of \<open>s\<close>.
\<close>

definition log_since :: "synthesizer \<Rightarrow> process \<Rightarrow> effect list" where
  "log_since s p = drop (length (effects s)) (effects (shared p))"

text \<open>
  The requests in the order of their pushes (\<open>QueuePushed\<close>), and in the order in which
  their Started events fired (\<open>EventFired Started\<close>, with the request id the result carries).
\<close>

definition pushes :: "effect \<Rightarrow> request_id list" where
  "pushes e = (case e of QueuePushed r \<Rightarrow> [r] | _ \<Rightarrow> [])"

definition submission_order :: "effect list \<Rightarrow> request_id list" where
  "submission_order es = concat (map pushes es)"

definition starts :: "effect \<Rightarrow> request_id list" where
  "starts e =
     (case e of
        EventFired kind result \<Rightarrow> if kind = Started then [requestId result] else []
      | _ \<Rightarrow> [])"

definition started_order :: "effect list \<Rightarrow> request_id list" where
  "started_order es = concat (map starts es)"


text \<open>
  The adapter-invocation windows of a log. The window of a request opens when its wait
  returns (\<open>QueueFront\<close>) and closes at the pop (\<open>QueuePopped\<close>). \<open>turn_after\<close> reads one
  effect: what it requires of the windows and what it leaves. A wait returns only while no
  window is open. The Started event fires in the window of its own request, once. The
  adapter is invoked in the window of its own request, after the Started event. Every
  other event, every write to the output and the wait for the output lie in a window
  whose Started event has fired; so does the pop, which closes the window. \<open>turns\<close> reads
  a log, and is \<open>None\<close> for a log that breaks one of these rules.
\<close>

datatype turn = Free | Admitted request_id | Active request_id

definition in_turn :: "turn \<Rightarrow> turn \<Rightarrow> turn option" where
  "in_turn t t' = (case t of Active r \<Rightarrow> Some t' | _ \<Rightarrow> None)"

definition turn_after :: "effect \<Rightarrow> turn \<Rightarrow> turn option" where
  "turn_after e t =
     (case e of
        QueueFront r \<Rightarrow> if t = Free then Some (Admitted r) else None
      | EventFired kind result \<Rightarrow>
          if kind = Started
          then (if t = Admitted (requestId result) then Some (Active (requestId result)) else None)
          else in_turn t t
      | AdapterSpeak words isSsml r \<Rightarrow> if t = Active r then Some t else None
      | OutputWrite buf sz \<Rightarrow> in_turn t t
      | OutputWaitUntilDone \<Rightarrow> in_turn t t
      | QueuePopped \<Rightarrow> in_turn t Free
      | _ \<Rightarrow> Some t)"

fun turns :: "turn \<Rightarrow> effect list \<Rightarrow> turn option" where
  "turns t [] = Some t"
| "turns t (e # es) = (case turn_after e t of None \<Rightarrow> None | Some t' \<Rightarrow> turns t' es)"

text \<open>
  The result that the adapter returns is fired as the terminal event of its request (lines
  106 and 154). An adapter that reported \<open>SynthesizingAudioStarted\<close> there would have a
  second Started event fired for the request.
\<close>

definition reports_started :: "tts_adapter option \<Rightarrow> string \<Rightarrow> bool \<Rightarrow> request_id \<Rightarrow> bool" where
  "reports_started adapter words isSsml rid =
     (case adapter of
        None \<Rightarrow> False
      | Some a \<Rightarrow> reason (snd (adapter_Speak a words isSsml rid)) = SynthesizingAudioStarted)"

section \<open>The history of a run\<close>

text \<open>
  The history keeps, for the proofs, which statement was run for which request: the
  requests in the order of a given statement, and the requests between the return of their
  wait and their pop.
\<close>

definition order_of :: "stmt \<Rightarrow> (request_id \<times> stmt) list \<Rightarrow> request_id list" where
  "order_of c h = map fst (filter (\<lambda>e. snd e = c) h)"

definition in_window :: "process \<Rightarrow> request_id \<Rightarrow> bool" where
  "in_window p r =
     ((r, S_WaitUntilRequestInFrontOfQueue) \<in> set (history p)
      \<and> (r, S_PopRequestFromQueue) \<notin> set (history p))"

text \<open>A request for the text \<open>hello\<close>, for the concrete runs.\<close>

definition test_request :: "request_id \<Rightarrow> convention \<Rightarrow> request" where
  "test_request r c = \<lparr> req_id = r, req_convention = c, req_text = ''hello'', req_isSsml = False \<rparr>"

section \<open>Invariants of a run\<close>

text \<open>
  The statements of the template, in order. Every request runs each of them once; which
  thread runs them changes at \<open>S_async\<close>.
\<close>

definition lifecycle :: "stmt list" where
  "lifecycle =
     [S_PushRequestIntoQueue, S_WaitUntilRequestInFrontOfQueue, S_FireStarted, S_AdapterSpeak,
      S_WaitUntilDone, S_FireTerminal, S_PopRequestFromQueue]"

fun lambda_lifecycle :: "lambda \<Rightarrow> stmt list" where
  "lambda_lifecycle Speak_lambda = lifecycle"
| "lambda_lifecycle StartSpeaking_lambda = drop 3 lifecycle"
| "lambda_lifecycle StartSpeakingAsync_lambda = lifecycle"

fun pending :: "stmt list \<Rightarrow> stmt list" where
  "pending [] = []"
| "pending (S_async l # rest) = lambda_lifecycle l @ pending rest"
| "pending (S_SetFutureResult # rest) = pending rest"
| "pending (S_return f # rest) = pending rest"
| "pending (c # rest) = c # pending rest"

fun tailfree :: "stmt list \<Rightarrow> bool" where
  "tailfree [] = True"
| "tailfree (S_async l # rest) = (pending rest = [] \<and> tailfree rest)"
| "tailfree (c # rest) = tailfree rest"



text \<open>
  What holds of every process a run reaches. The threads' remaining statements come from
  the entry points and lambdas; at most one thread of a request still has statements of
  the template to run, and they are exactly those the request has not run yet; the queue
  holds the requests that pushed and did not pop, in the order of their pushes.
\<close>

definition static_ok :: "process \<Rightarrow> bool" where
  "static_ok p =
     (\<forall>t \<in> set (threads p). tailfree (todo t) \<and> suffix (pending (todo t)) lifecycle)"


definition one_token :: "process \<Rightarrow> bool" where
  "one_token p =
     (\<forall>i < length (threads p). \<forall>j < length (threads p).
        i \<noteq> j \<longrightarrow> t_requestId (threads p ! i) = t_requestId (threads p ! j) \<longrightarrow>
        pending (todo (threads p ! i)) \<noteq> [] \<longrightarrow> pending (todo (threads p ! j)) = [])"

definition token_ok :: "process \<Rightarrow> bool" where
  "token_ok p =
     (\<forall>i < length (threads p). pending (todo (threads p ! i)) \<noteq> [] \<longrightarrow>
        (\<forall>c \<in> set lifecycle.
           (c \<in> set (pending (todo (threads p ! i))))
           = ((t_requestId (threads p ! i), c) \<notin> set (history p))))"

definition all_or_token :: "process \<Rightarrow> bool" where
  "all_or_token p =
     (\<forall>i < length (threads p).
        (\<forall>c \<in> set lifecycle. (t_requestId (threads p ! i), c) \<in> set (history p))
        \<or> (\<exists>k < length (threads p).
              t_requestId (threads p ! k) = t_requestId (threads p ! i)
              \<and> pending (todo (threads p ! k)) \<noteq> []))"

definition known :: "process \<Rightarrow> bool" where
  "known p = (\<forall>e \<in> set (history p). fst e \<in> t_requestId ` set (threads p))"

definition started_waited :: "process \<Rightarrow> bool" where
  "started_waited p =
     (\<forall>r. (r, S_FireStarted) \<in> set (history p) \<longrightarrow>
          (r, S_WaitUntilRequestInFrontOfQueue) \<in> set (history p))"


text \<open>The request in front of the queue, once its Started event has fired.\<close>

definition front_started :: "process \<Rightarrow> request_id list" where
  "front_started p =
     (case m_requestQueue (shared p) of
        [] \<Rightarrow> []
      | r # q \<Rightarrow> if (r, S_FireStarted) \<in> set (history p) then [r] else [])"

definition queue_ok :: "process \<Rightarrow> bool" where
  "queue_ok p =
     (order_of S_PushRequestIntoQueue (history p)
        = order_of S_PopRequestFromQueue (history p) @ m_requestQueue (shared p)
      \<and> distinct (order_of S_PushRequestIntoQueue (history p))
      \<and> order_of S_FireStarted (history p)
        = order_of S_PopRequestFromQueue (history p) @ front_started p
      \<and> (\<forall>r. in_window p r \<longrightarrow> (\<exists>q. m_requestQueue (shared p) = r # q)))"


definition invariant :: "process \<Rightarrow> bool" where
  "invariant p =
     (static_ok p \<and> one_token p \<and> token_ok p \<and> all_or_token p \<and> known p
      \<and> started_waited p \<and> queue_ok p)"

text \<open>
  The log and the history agree. No thread's request makes the adapter report a Started
  result, and no thread holds one (\<open>quiet\<close>). The window that the log leaves open is that
  of the request in front of the queue, if its wait has returned (\<open>turn_of\<close>). A request
  that has run \<open>S_FireStarted\<close> has its Started event in the log (\<open>started_logged\<close>); and
  where the adapter is quiet the log has the pushes and the Started events of the history,
  in its order, and no others (\<open>logged\<close>).
\<close>

definition quiet :: "process \<Rightarrow> bool" where
  "quiet p =
     (\<forall>t \<in> set (threads p).
        \<not> reports_started (m_ttsAdapter (shared p)) (t_text t) (t_isSsml t) (t_requestId t)
        \<and> (\<forall>r. synthesisDoneResult t = Some r \<longrightarrow> reason r \<noteq> SynthesizingAudioStarted))"

definition turn_of :: "process \<Rightarrow> turn" where
  "turn_of p =
     (case m_requestQueue (shared p) of
        [] \<Rightarrow> Free
      | r # q \<Rightarrow>
          if (r, S_FireStarted) \<in> set (history p) then Active r
          else if (r, S_WaitUntilRequestInFrontOfQueue) \<in> set (history p) then Admitted r
          else Free)"


definition logged :: "synthesizer \<Rightarrow> process \<Rightarrow> bool" where
  "logged s p =
     (effects (shared p) = effects s @ log_since s p
      \<and> submission_order (log_since s p) = order_of S_PushRequestIntoQueue (history p)
      \<and> started_order (log_since s p) = order_of S_FireStarted (history p)
      \<and> turns Free (log_since s p) = Some (turn_of p))"



text \<open>
  Two requests, one by \<open>StartSpeaking\<close> and one by \<open>SpeakAsync\<close>, and a schedule in
  which the second is submitted first.
\<close>

definition two_requests :: "request list" where
  "two_requests = [test_request ''r1'' By_StartSpeaking, test_request ''r2'' By_SpeakAsync]"

definition two_requests_schedule :: "nat list" where
  "two_requests_schedule = [1, 2, 0, 2, 2, 2, 2, 2, 2, 2, 2, 1, 0, 0, 0, 0, 0, 3, 3, 3, 3, 3]"


section \<open>Adapter selection: the default\<close>

lemma tryRest_default:
  "endpoint_of env = [] \<Longrightarrow> \<not> rest_flag env \<Longrightarrow> \<not> usp_flag env \<Longrightarrow> \<not> tryMock env \<Longrightarrow>
   \<not> tryLocal env \<Longrightarrow> tryRest env \<and> \<not> tryUsp env"
  by (simp add: tryRest_def tryRest0_def tryUsp_def rest_flag_def usp_flag_def)

text \<open>
  C4. With an empty endpoint string and the four overrides (REST, streaming, mock, local)
  false, selection on a synthesizer that has no adapter asks the factory for the REST class
  and for no other: the adapter is the object the factory returns for
  \<open>CSpxRestTtsEngineAdapter\<close>, and \<open>SPXERR_NOT_FOUND\<close> is raised when it returns none.
\<close>

theorem default_selection_is_rest:
  assumes "m_ttsAdapter s = None"
    and "endpoint_of env = []"
    and "\<not> rest_flag env" and "\<not> usp_flag env" and "\<not> tryMock env" and "\<not> tryLocal env"
  shows "InitializeTtsEngineAdapter env s =
           (case CreateObject env ''CSpxRestTtsEngineAdapter'' of
              None \<Rightarrow> Inl SPXERR_NOT_FOUND
            | Some a \<Rightarrow> Inr (s \<lparr> m_ttsAdapter := Some a,
                               effects := effects s @ [ObjectRequested ''CSpxRestTtsEngineAdapter''] \<rparr>))"
proof -
  from assms have t: "tryRest env" "\<not> tryUsp env"
    using tryRest_default by blast+
  show ?thesis
    using assms(1,5,6) t
    by (simp add: InitializeTtsEngineAdapter_def SpxCreateObjectWithSite_def Let_def
        split: option.split)
qed

theorem default_selection_is_rest_witness:
  "m_ttsAdapter CSpxSynthesizer = None
   \<and> endpoint_of (test_site [] [''CSpxRestTtsEngineAdapter'', ''CSpxLocalTtsEngineAdapter'']) = []
   \<and> \<not> rest_flag (test_site [] [''CSpxRestTtsEngineAdapter'', ''CSpxLocalTtsEngineAdapter''])
   \<and> \<not> usp_flag (test_site [] [''CSpxRestTtsEngineAdapter'', ''CSpxLocalTtsEngineAdapter''])
   \<and> \<not> tryMock (test_site [] [''CSpxRestTtsEngineAdapter'', ''CSpxLocalTtsEngineAdapter''])
   \<and> \<not> tryLocal (test_site [] [''CSpxRestTtsEngineAdapter'', ''CSpxLocalTtsEngineAdapter''])
   \<and> InitializeTtsEngineAdapter (test_site [] [''CSpxRestTtsEngineAdapter'', ''CSpxLocalTtsEngineAdapter''])
         CSpxSynthesizer =
       Inr (CSpxSynthesizer \<lparr> m_ttsAdapter := Some (test_adapter ''CSpxRestTtsEngineAdapter''),
                              effects := [ObjectRequested ''CSpxRestTtsEngineAdapter''] \<rparr>)"
  using default_selection_is_rest [of CSpxSynthesizer
      "test_site [] [''CSpxRestTtsEngineAdapter'', ''CSpxLocalTtsEngineAdapter'']"]
  by (simp add: CSpxSynthesizer_def test_site_def endpoint_of_def GetStringValue_def
      rest_flag_def usp_flag_def tryMock_def tryLocal_def flag_def)

section \<open>Adapter selection: precedence\<close>

lemma try_in_order_eq:
  "m_ttsAdapter s = None \<Longrightarrow>
   try_in_order env cs s =
     (case dropWhile (\<lambda>cls. CreateObject env cls = None) cs of
        [] \<Rightarrow> s \<lparr> effects := effects s @ map ObjectRequested cs \<rparr>
      | cls # later \<Rightarrow>
          s \<lparr> m_ttsAdapter := CreateObject env cls,
              effects := effects s
                @ map ObjectRequested (takeWhile (\<lambda>cls. CreateObject env cls = None) cs @ [cls]) \<rparr>)"
proof (induction cs arbitrary: s)
  case Nil
  then show ?case by simp
next
  case (Cons c cs)
  show ?case
  proof (cases "CreateObject env c")
    case None
    with Cons.prems
    have s1: "SpxCreateObjectWithSite env c s = s \<lparr> effects := effects s @ [ObjectRequested c] \<rparr>"
      by (simp add: SpxCreateObjectWithSite_def)
    have "m_ttsAdapter (s \<lparr> effects := effects s @ [ObjectRequested c] \<rparr>) = None"
      using Cons.prems by simp
    from Cons.IH [OF this]
    have "try_in_order env cs (SpxCreateObjectWithSite env c s) =
        (case dropWhile (\<lambda>cls. CreateObject env cls = None) cs of
           [] \<Rightarrow> s \<lparr> effects := effects s @ map ObjectRequested (c # cs) \<rparr>
         | cls # later \<Rightarrow>
             s \<lparr> m_ttsAdapter := CreateObject env cls,
                 effects := effects s
                   @ map ObjectRequested (c # takeWhile (\<lambda>cls. CreateObject env cls = None) cs @ [cls]) \<rparr>)"
      unfolding s1
      by (cases "dropWhile (\<lambda>cls. CreateObject env cls = None) cs")
        (simp_all del: dropWhile_eq_Nil_conv)
    with None Cons.prems show ?thesis by (simp cong: list.case_cong)
  next
    case (Some a)
    with Cons.prems show ?thesis
      by (cases cs) (simp_all add: SpxCreateObjectWithSite_def)
  qed
qed


lemma try_in_order_present: "m_ttsAdapter s \<noteq> None \<Longrightarrow> try_in_order env cs s = s"
  by (cases cs) auto

lemma try_in_order_append:
  "try_in_order env (xs @ ys) s = try_in_order env ys (try_in_order env xs s)"
  by (induction xs arbitrary: s) (simp_all add: try_in_order_present)

lemma try_in_order_one:
  "try_in_order env (if b then [cls] else []) s =
     (if m_ttsAdapter s = None \<and> b then SpxCreateObjectWithSite env cls s else s)"
  by simp

lemma candidates_eq:
  "candidates env =
      (if tryRest env then [''CSpxRestTtsEngineAdapter''] else [])
      @ (if tryUsp env then [''CSpxUspTtsEngineAdapter''] else [])
      @ (if tryMock env then [''CSpxMockTtsEngineAdapter''] else [])
      @ (if tryLocal env then [''CSpxLocalTtsEngineAdapter''] else [])"
  by (simp add: candidates_def precedence_def)

lemma InitializeTtsEngineAdapter_try_in_order:
  "InitializeTtsEngineAdapter env s =
     (if m_ttsAdapter (try_in_order env (candidates env) s) = None then Inl SPXERR_NOT_FOUND
      else Inr (try_in_order env (candidates env) s))"
  unfolding candidates_eq InitializeTtsEngineAdapter_def Let_def try_in_order_append
    try_in_order_one
  by (rule refl)

lemma dropWhile_Cons_not: "dropWhile P xs = x # ys \<Longrightarrow> \<not> P x"
  using hd_dropWhile [of P xs] by auto

text \<open>
  C5. On a synthesizer without adapter, selection asks the object factory for the variants
  whose condition holds, in the fixed order REST, streaming (USP), mock, local, until the
  factory returns an object: that object becomes the adapter and no later variant is asked
  for; a variant for which the factory returns no object is passed over and the next is
  tried, and \<open>SPXERR_NOT_FOUND\<close> is raised when none yields an object. With the mock and the
  local override set and neither the REST nor the streaming condition, the candidates are
  mock, then local.
\<close>

theorem selection_follows_precedence:
  assumes "m_ttsAdapter s = None"
  shows "InitializeTtsEngineAdapter env s =
       (case dropWhile (\<lambda>cls. CreateObject env cls = None) (candidates env) of
          [] \<Rightarrow> Inl SPXERR_NOT_FOUND
        | cls # later \<Rightarrow>
            Inr (s \<lparr> m_ttsAdapter := CreateObject env cls,
                     effects := effects s @ map ObjectRequested
                       (takeWhile (\<lambda>cls. CreateObject env cls = None) (candidates env) @ [cls]) \<rparr>))
    \<and> (tryMock env \<and> tryLocal env \<and> \<not> tryRest env \<and> \<not> tryUsp env \<longrightarrow>
         candidates env = [''CSpxMockTtsEngineAdapter'', ''CSpxLocalTtsEngineAdapter''])"
proof
  show "InitializeTtsEngineAdapter env s =
       (case dropWhile (\<lambda>cls. CreateObject env cls = None) (candidates env) of
          [] \<Rightarrow> Inl SPXERR_NOT_FOUND
        | cls # later \<Rightarrow>
            Inr (s \<lparr> m_ttsAdapter := CreateObject env cls,
                     effects := effects s @ map ObjectRequested
                       (takeWhile (\<lambda>cls. CreateObject env cls = None) (candidates env) @ [cls]) \<rparr>))"
  proof (cases "dropWhile (\<lambda>cls. CreateObject env cls = None) (candidates env)")
    case Nil
    with assms show ?thesis
      by (simp add: InitializeTtsEngineAdapter_try_in_order try_in_order_eq
          del: dropWhile_eq_Nil_conv)
  next
    case (Cons cls later)
    then have "CreateObject env cls \<noteq> None" by (rule dropWhile_Cons_not)
    with assms Cons show ?thesis
      by (simp add: InitializeTtsEngineAdapter_try_in_order try_in_order_eq)
  qed
  show "tryMock env \<and> tryLocal env \<and> \<not> tryRest env \<and> \<not> tryUsp env \<longrightarrow>
         candidates env = [''CSpxMockTtsEngineAdapter'', ''CSpxLocalTtsEngineAdapter'']"
    by (simp add: candidates_eq)
qed

lemma mock_and_local_flags:
  "tryMock (test_site mock_and_local classes) \<and> tryLocal (test_site mock_and_local classes)
   \<and> \<not> tryRest (test_site mock_and_local classes) \<and> \<not> tryUsp (test_site mock_and_local classes)"
  by (simp add: tryMock_def tryLocal_def tryRest_def tryRest0_def tryUsp_def flag_def
      GetStringValue_def test_site_def mock_and_local_def endpoint_of_def)

theorem selection_follows_precedence_witness:
  "m_ttsAdapter CSpxSynthesizer = None
   \<and> tryMock (test_site mock_and_local [''CSpxMockTtsEngineAdapter'', ''CSpxLocalTtsEngineAdapter''])
   \<and> tryLocal (test_site mock_and_local [''CSpxMockTtsEngineAdapter'', ''CSpxLocalTtsEngineAdapter''])
   \<and> \<not> tryRest (test_site mock_and_local [''CSpxMockTtsEngineAdapter'', ''CSpxLocalTtsEngineAdapter''])
   \<and> \<not> tryUsp (test_site mock_and_local [''CSpxMockTtsEngineAdapter'', ''CSpxLocalTtsEngineAdapter''])
   \<and> InitializeTtsEngineAdapter
         (test_site mock_and_local [''CSpxMockTtsEngineAdapter'', ''CSpxLocalTtsEngineAdapter''])
         CSpxSynthesizer =
       Inr (CSpxSynthesizer \<lparr> m_ttsAdapter := Some (test_adapter ''CSpxMockTtsEngineAdapter''),
                              effects := [ObjectRequested ''CSpxMockTtsEngineAdapter''] \<rparr>)"
  using selection_follows_precedence [of CSpxSynthesizer
      "test_site mock_and_local [''CSpxMockTtsEngineAdapter'', ''CSpxLocalTtsEngineAdapter'']"]
    mock_and_local_flags [of "[''CSpxMockTtsEngineAdapter'', ''CSpxLocalTtsEngineAdapter'']"]
  by (simp add: CSpxSynthesizer_def) (simp add: test_site_def)

text \<open>
  The factory decides: where it has no mock class, the local variant is asked for after the
  mock one and becomes the adapter although the mock override is set.
\<close>

theorem local_selected_although_mock_is_set:
  "tryMock (test_site mock_and_local [''CSpxLocalTtsEngineAdapter''])
   \<and> tryLocal (test_site mock_and_local [''CSpxLocalTtsEngineAdapter''])
   \<and> \<not> tryRest (test_site mock_and_local [''CSpxLocalTtsEngineAdapter''])
   \<and> \<not> tryUsp (test_site mock_and_local [''CSpxLocalTtsEngineAdapter''])
   \<and> InitializeTtsEngineAdapter (test_site mock_and_local [''CSpxLocalTtsEngineAdapter''])
         CSpxSynthesizer =
       Inr (CSpxSynthesizer \<lparr> m_ttsAdapter := Some (test_adapter ''CSpxLocalTtsEngineAdapter''),
                              effects := [ObjectRequested ''CSpxMockTtsEngineAdapter'',
                                          ObjectRequested ''CSpxLocalTtsEngineAdapter''] \<rparr>)"
  using mock_and_local_flags [of "[''CSpxLocalTtsEngineAdapter'']"]
  by (simp add: InitializeTtsEngineAdapter_def Let_def SpxCreateObjectWithSite_def
      CSpxSynthesizer_def) (simp add: test_site_def)


section \<open>Event bus: results that no event kind takes\<close>

text \<open>
  C10. A result whose reason is none of \<open>SynthesizingAudioStarted\<close>,
  \<open>SynthesizingAudio\<close>, \<open>SynthesizingAudioCompleted\<close> and \<open>Canceled\<close> takes the
  \<open>default\<close> branch of \<open>FireResultEvent\<close>: the call returns without a fault and leaves
  the synthesizer as it was, so no event is fired, the factory is not asked for event
  arguments, and no callback of any kind is invoked.
\<close>

theorem unknown_reason_fires_nothing:
  "FireResultEvent env (result \<lparr> reason := OtherReason n \<rparr>) s = Inr s"
  by (simp add: FireResultEvent_def)

section \<open>Event bus: disconnecting\<close>

lemma scan_absent: "object \<notin> fst ` set tbl \<Longrightarrow> scan object tbl = length tbl"
  by (induction tbl) auto

lemma scan_present:
  "object \<in> fst ` set tbl \<Longrightarrow> scan object tbl < length tbl \<and> fst (tbl ! scan object tbl) = object"
  by (induction tbl) auto

lemma scan_entry:
  "distinct (map fst tbl) \<Longrightarrow> (object, sg) \<in> set tbl \<Longrightarrow> tbl ! scan object tbl = (object, sg)"
  by (induction tbl) (auto simp: rev_image_eqI)

lemma remove_updated_entry:
  "distinct (map fst tbl) \<Longrightarrow> i < length tbl \<Longrightarrow> fst (tbl ! i) = object \<Longrightarrow>
   removeAll (object, sg') (tbl [i := (object, sg')]) = filter (\<lambda>e. fst e \<noteq> object) tbl"
proof (induction tbl arbitrary: i)
  case Nil
  then show ?case by simp
next
  case (Cons e es)
  show ?case
  proof (cases i)
    case 0
    with Cons.prems have k: "fst e = object" "object \<notin> fst ` set es" by auto
    then have "\<forall>x\<in>set es. fst x \<noteq> object" by (auto simp: image_iff)
    then have "filter (\<lambda>x. fst x \<noteq> object) es = es" "removeAll (object, sg') es = es"
      by (force simp: filter_id_conv intro: removeAll_id)+
    with 0 k show ?thesis by simp
  next
    case (Suc j)
    with Cons.prems have "fst e \<noteq> object" by (auto simp: image_iff)
    with Suc Cons show ?thesis by auto
  qed
qed

lemma DisconnectCallback_absent:
  "object \<notin> fst ` set tbl \<Longrightarrow> DisconnectCallback tbl object callback = tbl"
  by (simp add: DisconnectCallback_def scan_absent)

lemma DisconnectCallback_emptied:
  assumes "distinct (map fst tbl)" and "(object, sg) \<in> set tbl"
    and "(case callback of Some cb \<Rightarrow> signal_Disconnect cb sg | None \<Rightarrow> signal_DisconnectAll sg) = []"
  shows "DisconnectCallback tbl object callback = filter (\<lambda>e. fst e \<noteq> object) tbl"
proof -
  from assms(2) have "object \<in> fst ` set tbl" by force
  then have i: "scan object tbl < length tbl" "fst (tbl ! scan object tbl) = object"
    using scan_present by auto
  from assms(1,2) have e: "tbl ! scan object tbl = (object, sg)" by (rule scan_entry)
  show ?thesis
    using i e assms(3) remove_updated_entry [OF assms(1) i(1) i(2), of "[]"]
    by (cases callback) (simp_all add: DisconnectCallback_def Let_def signal_IsConnected_def)
qed

lemma ConnectCallback_keys:
  "distinct (map fst tbl) \<Longrightarrow> distinct (map fst (ConnectCallback tbl object cb))"
proof (cases "object \<in> fst ` set tbl")
  case True
  assume d: "distinct (map fst tbl)"
  from True have i: "scan object tbl < length tbl" using scan_present by auto
  then have "map fst (tbl [scan object tbl := (fst (tbl ! scan object tbl), signal_Connect cb (snd (tbl ! scan object tbl)))])
              = map fst tbl"
    by (simp add: map_update list_update_same_conv)
  with d i show ?thesis by (simp add: ConnectCallback_def Let_def)
next
  case False
  assume d: "distinct (map fst tbl)"
  from False have "scan object tbl = length tbl" by (rule scan_absent)
  with d False show ?thesis by (simp add: ConnectCallback_def)
qed

lemma DisconnectCallback_keys:
  "distinct (map fst tbl) \<Longrightarrow> distinct (map fst (DisconnectCallback tbl object callback))"
proof (cases "object \<in> fst ` set tbl")
  case True
  assume d: "distinct (map fst tbl)"
  from True have i: "scan object tbl < length tbl" using scan_present by auto
  have k: "map fst (tbl [scan object tbl := (fst (tbl ! scan object tbl), sg)]) = map fst tbl" for sg
    using i by (simp add: map_update list_update_same_conv)
  show ?thesis
    using d i k
    by (simp add: DisconnectCallback_def Let_def removeAll_filter_not_eq distinct_map_filter)
next
  case False
  assume d: "distinct (map fst tbl)"
  with False show ?thesis by (simp add: DisconnectCallback_absent)
qed


text \<open>
  C8. For every event kind: disconnecting a subscriber identity that has no entry in the
  table of that kind leaves the synthesizer as it was (and the operation has no failure to
  report); and when the disconnect leaves the identity's signal without callbacks, the
  identity's entry is gone from the table and the other entries are untouched. Tables
  have one entry per identity, which \<open>Connect\<close> and \<open>Disconnect\<close> maintain.
\<close>

theorem disconnect_unknown_or_emptied:
  "(object \<notin> fst ` set (table_of kind s) \<longrightarrow> Disconnect_of kind object callback s = s)
   \<and> (distinct (map fst (table_of kind s)) \<and> (object, sg) \<in> set (table_of kind s)
        \<and> (case callback of Some cb \<Rightarrow> signal_Disconnect cb sg | None \<Rightarrow> signal_DisconnectAll sg) = []
      \<longrightarrow> table_of kind (Disconnect_of kind object callback s)
            = filter (\<lambda>e. fst e \<noteq> object) (table_of kind s)
          \<and> object \<notin> fst ` set (table_of kind (Disconnect_of kind object callback s)))"
proof (intro conjI impI)
  assume "object \<notin> fst ` set (table_of kind s)"
  then show "Disconnect_of kind object callback s = s"
    by (cases kind)
      (simp_all add: DisconnectSynthesisStartedCallback_def DisconnectSynthesizingCallback_def
        DisconnectSynthesisCompletedCallback_def DisconnectSynthesisCanceledCallback_def
        DisconnectCallback_absent)
next
  assume a: "distinct (map fst (table_of kind s)) \<and> (object, sg) \<in> set (table_of kind s)
        \<and> (case callback of Some cb \<Rightarrow> signal_Disconnect cb sg | None \<Rightarrow> signal_DisconnectAll sg) = []"
  then have "DisconnectCallback (table_of kind s) object callback
               = filter (\<lambda>e. fst e \<noteq> object) (table_of kind s)"
    using DisconnectCallback_emptied by blast
  then show t: "table_of kind (Disconnect_of kind object callback s)
            = filter (\<lambda>e. fst e \<noteq> object) (table_of kind s)"
    by (cases kind)
      (simp_all add: DisconnectSynthesisStartedCallback_def DisconnectSynthesizingCallback_def
        DisconnectSynthesisCompletedCallback_def DisconnectSynthesisCanceledCallback_def)
  show "object \<notin> fst ` set (table_of kind (Disconnect_of kind object callback s))"
    unfolding t by auto
qed


theorem disconnect_unknown_or_emptied_witness:
  "3 \<notin> fst ` set (table_of Started test_synthesizer)
   \<and> Disconnect_of Started 3 (Some 7) test_synthesizer = test_synthesizer
   \<and> distinct (map fst (table_of Started test_synthesizer))
   \<and> (1, [7]) \<in> set (table_of Started test_synthesizer)
   \<and> signal_Disconnect 7 [7] = []
   \<and> table_of Started (Disconnect_of Started 1 (Some 7) test_synthesizer) = [(2, [8])]
   \<and> 1 \<notin> fst ` set (table_of Started (Disconnect_of Started 1 (Some 7) test_synthesizer))"
  using disconnect_unknown_or_emptied [where object = 3 and kind = Started
      and s = test_synthesizer and callback = "Some 7"]
    disconnect_unknown_or_emptied [where object = 1 and kind = Started
      and s = test_synthesizer and callback = "Some 7" and sg = "[7]"]
  by (simp add: test_synthesizer_def signal_Disconnect_def)


section \<open>Firing, writing, speaking\<close>

lemma FireSynthesisEvent_eq:
  "FireSynthesisEvent env tbl result s =
     (if signals env tbl then Inr (s \<lparr> effects := effects s @ callbacks_of tbl result \<rparr>)
      else Inl NullPointerDereference)"
proof (induction tbl arbitrary: s)
  case Nil
  then show ?case by (simp add: signals_def callbacks_of_def)
next
  case (Cons e es)
  show ?case
  proof (cases "Creates env ''CSpxSynthesisEventArgs''")
    case True
    then have "signals env es" "signals env (e # es)" by (simp_all add: signals_def)
    with True show ?thesis
      by (simp add: Cons.IH SpxCreateObjectWithSite_blank_def signal_Signal_def callbacks_of_def)
  next
    case False
    then show ?thesis by (simp add: SpxCreateObjectWithSite_blank_def signals_def)
  qed
qed

lemma table_for_effects_update [simp]: "table_for (s \<lparr> effects := es \<rparr>) result = table_for s result"
  by (simp add: table_for_def split: ResultReason.split)

lemma table_for_queue_update [simp]:
  "table_for (s \<lparr> m_requestQueue := q \<rparr>) result = table_for s result"
  by (simp add: table_for_def split: ResultReason.split)

lemma FireResultEvent_eq:
  "FireResultEvent env result s =
     (if signals env (table_for s result) then Inr (s \<lparr> effects := effects s @ fired s result \<rparr>)
      else Inl NullPointerDereference)"
  by (cases "reason result")
    (simp_all add: FireResultEvent_def fired_def table_for_def FireSynthesisStarted_def
      FireSynthesizing_def FireSynthesisCompleted_def FireSynthesisCanceled_def
      FireSynthesisEvent_eq signals_def)


lemma fired_effects_update [simp]: "fired (s \<lparr> effects := es \<rparr>) result = fired s result"
  by (simp add: fired_def split: ResultReason.split)

lemma fired_queue_update [simp]: "fired (s \<lparr> m_requestQueue := q \<rparr>) result = fired s result"
  by (simp add: fired_def split: ResultReason.split)

lemma chunk_trace_effects_update [simp]:
  "chunk_trace (s \<lparr> effects := es \<rparr>) = chunk_trace s"
  by (intro ext) (simp add: chunk_trace_def)

lemma chunk_trace_queue_update [simp]:
  "chunk_trace (s \<lparr> m_requestQueue := q \<rparr>) = chunk_trace s"
  by (intro ext) (simp add: chunk_trace_def)

lemma CreateResult_eq:
  "m_audioOutput s = Some out \<Longrightarrow>
   CreateResult env rid rsn audio len s =
     (if Creates env ''CSpxSynthesisResult''
      then Inr (created_result out rid rsn audio len,
                s \<lparr> effects := effects s @ [ObjectRequested ''CSpxSynthesisResult''] \<rparr>)
      else Inl NullPointerDereference)"
  by (simp add: CreateResult_def SpxCreateObjectWithSite_blank_def created_result_def)

lemma CreateResult_without_output:
  "m_audioOutput s = None \<Longrightarrow> CreateResult env rid rsn audio len s = Inl NullPointerDereference"
  by (simp add: CreateResult_def)

lemma Write_eq:
  "m_audioOutput s = Some out \<Longrightarrow>
   Write env rid buf sz s =
     (if Creates env ''CSpxSynthesisResult'' \<and> signals env (Synthesizing s)
      then Inr (output_Write out buf sz,
                s \<lparr> effects := effects s @ chunk_trace s out rid (buf, sz) \<rparr>)
      else Inl NullPointerDereference)"
  by (simp add: Write_def CreateResult_eq FireResultEvent_eq chunk_trace_def table_for_def
      created_result_def InitSynthesisResult_def)

lemma write_chunks_eq:
  "m_audioOutput s = Some out \<Longrightarrow>
   write_chunks env rid cs s =
     (if cs = [] \<or> (Creates env ''CSpxSynthesisResult'' \<and> signals env (Synthesizing s))
      then Inr (s \<lparr> effects := effects s @ concat (map (chunk_trace s out rid) cs) \<rparr>)
      else Inl NullPointerDereference)"
  by (induction cs arbitrary: s) (simp_all add: Write_eq)

lemma ttsAdapter_Speak_eq:
  "m_ttsAdapter s = Some a \<Longrightarrow> m_audioOutput s = Some out \<Longrightarrow>
   ttsAdapter_Speak env text isSsml rid s =
     (if fst (adapter_Speak a text isSsml rid) = []
         \<or> (Creates env ''CSpxSynthesisResult'' \<and> signals env (Synthesizing s))
      then Inr (snd (adapter_Speak a text isSsml rid),
                s \<lparr> effects := effects s @ AdapterSpeak text isSsml rid
                       # concat (map (chunk_trace s out rid) (fst (adapter_Speak a text isSsml rid))) \<rparr>)
      else Inl NullPointerDereference)"
  by (simp add: ttsAdapter_Speak_def write_chunks_eq)

text \<open>
  C3. With an audio output in place, \<open>Write\<close> asks the factory for the result object,
  builds the Synthesizing result that carries exactly the chunk's buffer and size, fires
  it (the event, then for every entry of the Synthesizing table its event arguments and
  its callbacks, in table order), only then hands the chunk to the output, and returns the
  count the output's \<open>Write\<close> reports. It dereferences a null pointer instead, before
  anything has reached the output, when the factory has no result object, or no event
  arguments for a table that has an entry.
\<close>

theorem Write_fires_then_forwards:
  assumes "m_audioOutput s = Some out"
  shows "Write env rid buf sz s =
     (if Creates env ''CSpxSynthesisResult''
         \<and> (Synthesizing s = [] \<or> Creates env ''CSpxSynthesisEventArgs'')
      then Inr (output_Write out buf sz,
                s \<lparr> effects := effects s
                       @ [ObjectRequested ''CSpxSynthesisResult'']
                       @ fired s (created_result out rid SynthesizingAudio buf (unat sz))
                       @ [OutputWrite buf sz] \<rparr>)
      else Inl NullPointerDereference)
    \<and> fired s (created_result out rid SynthesizingAudio buf (unat sz))
        = EventFired InProgress (created_result out rid SynthesizingAudio buf (unat sz))
          # callbacks_of (Synthesizing s) (created_result out rid SynthesizingAudio buf (unat sz))
    \<and> audio_buffer (created_result out rid SynthesizingAudio buf (unat sz)) = buf
    \<and> audio_length (created_result out rid SynthesizingAudio buf (unat sz)) = unat sz
    \<and> reason (created_result out rid SynthesizingAudio buf (unat sz)) = SynthesizingAudio"
  using assms
  by (simp add: Write_eq chunk_trace_def fired_def created_result_def InitSynthesisResult_def
      signals_def)

theorem Write_fires_then_forwards_witness:
  "m_audioOutput test_synthesizer = Some test_output
   \<and> Write (test_site [] []) ''r1'' [1, 2, 3] 3 test_synthesizer =
       Inr (3, test_synthesizer \<lparr> effects :=
         [ObjectRequested ''CSpxSynthesisResult'',
          EventFired InProgress (created_result test_output ''r1'' SynthesizingAudio [1, 2, 3] 3),
          ObjectRequested ''CSpxSynthesisEventArgs'',
          CallbackInvoked 1 9 (created_result test_output ''r1'' SynthesizingAudio [1, 2, 3] 3),
          OutputWrite [1, 2, 3] 3] \<rparr>)
   \<and> audio_buffer (created_result test_output ''r1'' SynthesizingAudio [1, 2, 3] 3) = [1, 2, 3]
   \<and> audio_length (created_result test_output ''r1'' SynthesizingAudio [1, 2, 3] 3) = 3"
  using Write_fires_then_forwards [where s = test_synthesizer and out = test_output
      and env = "test_site [] []" and rid = "''r1''" and buf = "[1, 2, 3]" and sz = 3]
  by (simp add: test_synthesizer_def test_output_def callbacks_of_def test_site_def)



section \<open>What constructs the adapter\<close>

lemma objects_requested_append [simp]:
  "objects_requested (xs @ ys) = objects_requested xs @ objects_requested ys"
  by (induction xs rule: objects_requested.induct) simp_all

lemma adapters_requested_append [simp]:
  "adapters_requested (xs @ ys) = adapters_requested xs @ adapters_requested ys"
  by (simp add: adapters_requested_def)

lemma adapters_requested_simps [simp]:
  "adapters_requested [] = []"
  "adapters_requested (ObjectRequested ''CSpxSynthesisResult'' # es) = adapters_requested es"
  "adapters_requested (ObjectRequested ''CSpxSynthesisEventArgs'' # es) = adapters_requested es"
  "adapters_requested (ObjectRequested ''CSpxWordBoundaryEventArgs'' # es) = adapters_requested es"
  "adapters_requested (EventFired kind result # es) = adapters_requested es"
  "adapters_requested (CallbackInvoked object cb result # es) = adapters_requested es"
  "adapters_requested (OutputWrite buf sz # es) = adapters_requested es"
  "adapters_requested (AdapterSpeak text isSsml rid # es) = adapters_requested es"
  "adapters_requested (WordBoundarySignalled audioOffset textOffset wordLength # es)
     = adapters_requested es"
  "adapters_requested (QueuePushed rid # es) = adapters_requested es"
  "adapters_requested (QueueFront rid # es) = adapters_requested es"
  "adapters_requested (QueuePopped # es) = adapters_requested es"
  "adapters_requested (OutputWaitUntilDone # es) = adapters_requested es"
  "adapters_requested (OutputClose # es) = adapters_requested es"
  "adapters_requested (AdapterTerm # es) = adapters_requested es"
  "adapters_requested (AdapterSetOutput # es) = adapters_requested es"
  "adapters_requested (LogFilenameSet filename # es) = adapters_requested es"
  by (simp_all add: adapters_requested_def adapter_classes_def)

lemma adapters_requested_callbacks [simp]: "adapters_requested (callbacks_of tbl result) = []"
proof -
  have "adapters_requested (map (\<lambda>cb. CallbackInvoked object cb result) sg) = []" for object sg
    by (induction sg) simp_all
  then show ?thesis
    by (induction tbl) (simp_all add: callbacks_of_def)
qed

lemma adapters_requested_fired [simp]: "adapters_requested (fired s result) = []"
  by (simp add: fired_def split: ResultReason.split)

lemma adapters_requested_chunks [simp]:
  "adapters_requested (concat (map (chunk_trace s out rid) cs)) = []"
  by (induction cs) (simp_all add: chunk_trace_def)

lemma constructed_simps [simp]:
  "constructed (s \<lparr> m_requestQueue := q \<rparr>) = constructed s"
  "constructed (s \<lparr> m_fEnabled := b \<rparr>) = constructed s"
  "constructed (s \<lparr> m_siteKeepAlive := k \<rparr>) = constructed s"
  "constructed (s \<lparr> m_audioOutput := out \<rparr>) = constructed s"
  "constructed (s \<lparr> SynthesisStarted := t \<rparr>) = constructed s"
  "constructed (s \<lparr> Synthesizing := t \<rparr>) = constructed s"
  "constructed (s \<lparr> SynthesisCompleted := t \<rparr>) = constructed s"
  "constructed (s \<lparr> SynthesisCanceled := t \<rparr>) = constructed s"
  "adapters_requested es = [] \<Longrightarrow> constructed (s \<lparr> effects := effects s @ es \<rparr>) = constructed s"
  by (simp_all add: constructed_def)

lemma constructed_FireResultEvent:
  "FireResultEvent env result s = Inr s' \<Longrightarrow> constructed s' = constructed s"
  by (auto simp: FireResultEvent_eq split: if_splits)

lemma constructed_CreateResult:
  "CreateResult env rid rsn audio len s = Inr v \<Longrightarrow> constructed (snd v) = constructed s"
  by (cases "m_audioOutput s")
    (auto simp: CreateResult_without_output CreateResult_eq split: if_splits)

lemma constructed_Push [simp]: "constructed (PushRequestIntoQueue rid s) = constructed s"
  by (simp add: PushRequestIntoQueue_def constructed_def)

lemma constructed_Wait:
  "WaitUntilRequestInFrontOfQueue rid s = Inr s' \<Longrightarrow> constructed s' = constructed s"
  by (auto simp: WaitUntilRequestInFrontOfQueue_def constructed_def split: list.splits if_splits)

lemma constructed_Pop: "PopRequestFromQueue s = Inr s' \<Longrightarrow> constructed s' = constructed s"
  by (auto simp: PopRequestFromQueue_def constructed_def split: list.splits)

lemma constructed_WaitUntilDone:
  "audioOutput_WaitUntilDone s = Inr s' \<Longrightarrow> constructed s' = constructed s"
  by (auto simp: audioOutput_WaitUntilDone_def constructed_def split: option.splits)

lemma constructed_Close: "audioOutput_Close s = Inr s' \<Longrightarrow> constructed s' = constructed s"
  by (auto simp: audioOutput_Close_def constructed_def split: option.splits)

lemma Write_without_output:
  "m_audioOutput s = None \<Longrightarrow> Write env rid buf sz s = Inl NullPointerDereference"
  by (simp add: Write_def CreateResult_without_output)

lemma constructed_Write:
  "Write env rid buf sz s = Inr v \<Longrightarrow> constructed (snd v) = constructed s"
  by (cases "m_audioOutput s")
    (auto simp: Write_without_output Write_eq chunk_trace_def split: if_splits)

lemma constructed_write_chunks:
  "write_chunks env rid cs s = Inr s' \<Longrightarrow> constructed s' = constructed s"
proof (induction cs arbitrary: s)
  case Nil
  then show ?case by simp
next
  case (Cons c cs)
  from Cons.prems obtain v where w: "Write env rid (fst c) (snd c) s = Inr v"
    and r: "write_chunks env rid cs (snd v) = Inr s'"
    by (auto split: sum.splits)
  from Cons.IH [OF r] constructed_Write [OF w] show ?case by simp
qed

lemma constructed_ttsAdapter_Speak:
  assumes r: "ttsAdapter_Speak env text isSsml rid s = Inr v"
  shows "constructed (snd v) = constructed s"
proof (cases "m_ttsAdapter s")
  case None
  with r show ?thesis by (simp add: ttsAdapter_Speak_def)
next
  case (Some a)
  with r obtain s' where
    w: "write_chunks env rid (fst (adapter_Speak a text isSsml rid))
          (s \<lparr> effects := effects s @ [AdapterSpeak text isSsml rid] \<rparr>) = Inr s'"
    and v: "snd v = s'"
    by (auto simp: ttsAdapter_Speak_def split: sum.splits)
  from constructed_write_chunks [OF w] v show ?thesis by simp
qed

lemma constructed_Speak:
  "Speak env text isSsml rid s = Inr v \<Longrightarrow> constructed (snd v) = constructed s"
  unfolding Speak_def Let_def
  by (auto split: sum.splits
      dest!: constructed_Wait constructed_Pop constructed_WaitUntilDone constructed_ttsAdapter_Speak
        constructed_CreateResult constructed_FireResultEvent)

lemma constructed_StartSpeaking:
  "StartSpeaking env text isSsml rid s = Inr v \<Longrightarrow> constructed (snd v) = constructed s"
  unfolding StartSpeaking_def Let_def
  by (auto split: sum.splits
      dest!: constructed_Wait constructed_CreateResult constructed_FireResultEvent)

lemma constructed_StartSpeaking_task:
  "StartSpeaking_task env op s = Inr v \<Longrightarrow> constructed (snd v) = constructed s"
  unfolding StartSpeaking_task_def Let_def
  by (auto split: sum.splits
      dest!: constructed_Pop constructed_WaitUntilDone constructed_ttsAdapter_Speak
        constructed_FireResultEvent)

lemma constructed_run_task:
  "run_task env op s = Inr v \<Longrightarrow> constructed (snd v) = constructed s"
  by (cases "task op")
    (auto simp: run_task_def dest: constructed_Speak constructed_StartSpeaking
      constructed_StartSpeaking_task)

lemma state_of_Inr: "state_of r = Inr s' \<Longrightarrow> \<exists>v. r = Inr v \<and> snd v = s'"
  by (cases r) (simp_all add: state_of_def)

lemma constructed_Connect [simp]: "constructed (Connect_of kind object cb s) = constructed s"
  by (cases kind)
    (simp_all add: ConnectSynthesisStartedCallback_def ConnectSynthesizingCallback_def
      ConnectSynthesisCompletedCallback_def ConnectSynthesisCanceledCallback_def)

lemma constructed_Disconnect [simp]:
  "constructed (Disconnect_of kind object callback s) = constructed s"
  by (cases kind)
    (simp_all add: DisconnectSynthesisStartedCallback_def DisconnectSynthesizingCallback_def
      DisconnectSynthesisCompletedCallback_def DisconnectSynthesisCanceledCallback_def)

lemma constructed_Term: "Term s = Inr s' \<Longrightarrow> constructed s' = constructed s"
  by (auto simp: Term_def ReleaseTtsEngineAdapter_def constructed_def audioOutput_Close_def
      adapters_requested_def split: sum.splits option.splits if_splits)

lemma constructed_SetOutput: "SetOutput output s = Inr s' \<Longrightarrow> constructed s' = constructed s"
  by (auto simp: SetOutput_def constructed_def Let_def split: option.splits)

lemma constructed_FireWordBoundary:
  "FireWordBoundary env audioOffset textOffset wordLength s = Inr s' \<Longrightarrow>
   constructed s' = constructed s"
  by (auto simp: FireWordBoundary_def SpxCreateObjectWithSite_blank_def Let_def constructed_def
      split: if_splits)

lemma constructed_Init_present:
  "m_ttsAdapter s \<noteq> None \<Longrightarrow> Init env s = Inr s' \<Longrightarrow> constructed s' = constructed s"
  by (auto simp: Init_def EnsureTtsEngineAdapter_def CheckLogFilename_def constructed_def Let_def
      split: if_splits)

lemma constructed_perform:
  assumes "perform env op s = Inr s'" and "m_ttsAdapter s \<noteq> None \<or> op \<noteq> OpInit"
  shows "constructed s' = constructed s"
proof (cases op)
  case OpInit
  with assms have "m_ttsAdapter s \<noteq> None" "Init env s = Inr s'" by simp_all
  then show ?thesis by (rule constructed_Init_present)
next
  case OpTerm
  with assms show ?thesis by (auto dest: constructed_Term)
next
  case (OpSetOutput out)
  with assms show ?thesis by (auto dest: constructed_SetOutput)
next
  case (OpSpeak words isSsml rid)
  with assms show ?thesis by (auto dest!: state_of_Inr constructed_Speak)
next
  case (OpStartSpeaking words isSsml rid)
  with assms show ?thesis by (auto dest!: state_of_Inr constructed_StartSpeaking)
next
  case (OpRunTask t)
  with assms show ?thesis by (auto dest!: state_of_Inr constructed_run_task)
next
  case OpClose
  with assms show ?thesis by (auto simp: Close_def dest: constructed_Close)
next
  case (OpWrite rid buf sz)
  with assms show ?thesis by (auto dest!: state_of_Inr constructed_Write)
next
  case (OpFireWordBoundary audioOffset textOffset wordLength)
  with assms show ?thesis by (auto dest: constructed_FireWordBoundary)
qed (use assms in \<open>auto simp: Enable_def Disable_def\<close>)

lemma Speak_test:
  "Speak (test_site [] [''CSpxRestTtsEngineAdapter'']) ''hello'' False ''r1'' test_synthesizer =
     Inr (created_result test_output ''r1'' SynthesizingAudioCompleted [1, 2, 3] 3,
          test_synthesizer \<lparr> effects := test_speak_trace \<rparr>)"
  by (simp add: Speak_def PushRequestIntoQueue_def WaitUntilRequestInFrontOfQueue_def
      CreateResult_eq [of _ test_output] FireResultEvent_eq
      ttsAdapter_Speak_eq [of _ _ test_output]
      audioOutput_WaitUntilDone_def signals_def table_for_def
      PopRequestFromQueue_def Let_def created_result_def
      test_synthesizer_def test_output_def test_adapter_def callbacks_of_def test_site_def
      fired_def chunk_trace_def InitSynthesisResult_def test_speak_trace_def)

lemma Init_absent:
  "m_ttsAdapter s = None \<Longrightarrow> Init env s = Inr s' \<Longrightarrow> m_ttsAdapter s' \<noteq> None"
  by (auto simp: Init_def EnsureTtsEngineAdapter_def CheckLogFilename_def
      InitializeTtsEngineAdapter_try_in_order Let_def split: if_splits)

text \<open>
  C7. The adapter is absent in a newly constructed synthesizer. \<open>Init\<close> constructs it
  when it is absent, through the selection, and a successful \<open>Init\<close> leaves an adapter
  in place. No call of the Speak family, and no background task of one, constructs an
  adapter: the adapter the synthesizer holds is the one it held, and the factory is not
  asked for an adapter class. While an adapter exists no operation of the class replaces
  it or asks the factory for an adapter class.
\<close>

theorem adapter_constructed_by_Init_only:
  "m_ttsAdapter CSpxSynthesizer = None
   \<and> (m_ttsAdapter s = None \<longrightarrow>
        Init env s = InitializeTtsEngineAdapter env (CheckLogFilename env (s \<lparr> m_siteKeepAlive := True \<rparr>)))
   \<and> (m_ttsAdapter s = None \<and> Init env s = Inr s' \<longrightarrow> m_ttsAdapter s' \<noteq> None)
   \<and> (speak_family op \<and> perform env op s = Inr s' \<longrightarrow> constructed s' = constructed s)
   \<and> (m_ttsAdapter s \<noteq> None \<and> perform env op s = Inr s' \<longrightarrow> constructed s' = constructed s)"
proof (intro conjI impI)
  show "m_ttsAdapter CSpxSynthesizer = None" by (simp add: CSpxSynthesizer_def)
next
  assume "m_ttsAdapter s = None"
  then show "Init env s = InitializeTtsEngineAdapter env (CheckLogFilename env (s \<lparr> m_siteKeepAlive := True \<rparr>))"
    by (simp add: Init_def EnsureTtsEngineAdapter_def CheckLogFilename_def Let_def)
next
  assume "m_ttsAdapter s = None \<and> Init env s = Inr s'"
  then show "m_ttsAdapter s' \<noteq> None" using Init_absent by blast
next
  assume a: "speak_family op \<and> perform env op s = Inr s'"
  then have "op \<noteq> OpInit" by auto
  with a show "constructed s' = constructed s" using constructed_perform by blast
next
  assume "m_ttsAdapter s \<noteq> None \<and> perform env op s = Inr s'"
  then show "constructed s' = constructed s" using constructed_perform by blast
qed

theorem adapter_constructed_by_Init_only_witness:
  "m_ttsAdapter CSpxSynthesizer = None
   \<and> Init (test_site [] [''CSpxRestTtsEngineAdapter'']) CSpxSynthesizer =
       Inr (CSpxSynthesizer \<lparr> m_siteKeepAlive := True,
              m_ttsAdapter := Some (test_adapter ''CSpxRestTtsEngineAdapter''),
              effects := [ObjectRequested ''CSpxRestTtsEngineAdapter''] \<rparr>)
   \<and> speak_family (OpSpeak ''hello'' False ''r1'')
   \<and> perform (test_site [] [''CSpxRestTtsEngineAdapter'']) (OpSpeak ''hello'' False ''r1'') test_synthesizer
       = Inr (test_synthesizer \<lparr> effects := test_speak_trace \<rparr>)
   \<and> constructed (test_synthesizer \<lparr> effects := test_speak_trace \<rparr>) = constructed test_synthesizer
   \<and> objects_requested test_speak_trace =
       [''CSpxSynthesisResult'', ''CSpxSynthesisEventArgs'', ''CSpxSynthesisEventArgs'',
        ''CSpxSynthesisResult'', ''CSpxSynthesisEventArgs'', ''CSpxSynthesisEventArgs'']
   \<and> m_ttsAdapter test_synthesizer \<noteq> None
   \<and> perform (test_site [] [''CSpxRestTtsEngineAdapter'']) OpInit test_synthesizer = Inr test_synthesizer"
  using adapter_constructed_by_Init_only [of CSpxSynthesizer "test_site [] [''CSpxRestTtsEngineAdapter'']"
      "CSpxSynthesizer \<lparr> m_siteKeepAlive := True,
              m_ttsAdapter := Some (test_adapter ''CSpxRestTtsEngineAdapter''),
              effects := [ObjectRequested ''CSpxRestTtsEngineAdapter''] \<rparr>" OpInit]
    adapter_constructed_by_Init_only [of test_synthesizer "test_site [] [''CSpxRestTtsEngineAdapter'']"
      "test_synthesizer \<lparr> effects := test_speak_trace \<rparr>" "OpSpeak ''hello'' False ''r1''"]
    Speak_test
  apply (simp add: state_of_def)
  apply (simp add: Init_def EnsureTtsEngineAdapter_def CheckLogFilename_def GetStringValue_def
      InitializeTtsEngineAdapter_def SpxCreateObjectWithSite_def Let_def tryRest_def tryRest0_def
      tryUsp_def tryMock_def tryLocal_def flag_def endpoint_of_def test_site_def
      CSpxSynthesizer_def test_synthesizer_def test_speak_trace_def)
  done

text \<open>
  The first \<open>Speak\<close> on a synthesizer without adapter constructs none: it dereferences
  a null pointer, in \<open>CreateResult\<close> (line 497) on a newly constructed synthesizer, which
  has no output either, and in the call of the adapter's \<open>Speak\<close> (line 96) where an
  output is in place.
\<close>

theorem Speak_constructs_no_adapter:
  "m_ttsAdapter CSpxSynthesizer = None
   \<and> Speak (test_site [] [''CSpxRestTtsEngineAdapter'']) ''hello'' False ''r1'' CSpxSynthesizer
       = Inl NullPointerDereference
   \<and> Speak (test_site [] [''CSpxRestTtsEngineAdapter'']) ''hello'' False ''r1''
       (CSpxSynthesizer \<lparr> m_audioOutput := Some test_output \<rparr>)
       = Inl NullPointerDereference"
  by (simp add: CSpxSynthesizer_def Speak_def PushRequestIntoQueue_def
      WaitUntilRequestInFrontOfQueue_def CreateResult_def ttsAdapter_Speak_def
      FireResultEvent_eq SpxCreateObjectWithSite_blank_def signals_def table_for_def
      test_site_def)

section \<open>Teardown\<close>

lemma Term_without_output: "m_audioOutput s = None \<Longrightarrow> Term s = Inl NullPointerDereference"
  by (simp add: Term_def audioOutput_Close_def ReleaseTtsEngineAdapter_def)

text \<open>
  C9. \<open>Term\<close> guards the adapter against null but not the audio output: on a synthesizer
  whose \<open>SetOutput\<close> was never called, such as a newly constructed one, \<open>Term\<close>
  dereferences the null \<open>m_audioOutput\<close>.
\<close>

theorem Term_of_new_synthesizer_faults: "Term CSpxSynthesizer = Inl NullPointerDereference"
  by (simp add: Term_def audioOutput_Close_def ReleaseTtsEngineAdapter_def CSpxSynthesizer_def)

section \<open>Concurrent requests: the statements of the threads\<close>

lemma pending_lambda_body: "pending (lambda_body l) = lambda_lifecycle l"
  by (cases l) (simp_all add: Speak_body_def StartSpeaking_body_def lifecycle_def)

lemma pending_entry: "pending (entry c) = lifecycle"
  by (cases c) (simp_all add: Speak_body_def StartSpeaking_body_def lifecycle_def)

lemma tailfree_lambda_body: "tailfree (lambda_body l)"
  by (cases l) (simp_all add: Speak_body_def StartSpeaking_body_def)

lemma tailfree_entry: "tailfree (entry c)"
  by (cases c) (simp_all add: Speak_body_def StartSpeaking_body_def)



lemma lambda_lifecycle_suffix: "suffix (lambda_lifecycle l) lifecycle"
  by (cases l) (simp_all add: suffix_drop)

lemma lambda_lifecycle_not_Nil: "lambda_lifecycle l \<noteq> []"
  by (cases l) (simp_all add: lifecycle_def)

lemma distinct_lifecycle: "distinct lifecycle"
  by (simp add: lifecycle_def)

lemma suffix_lifecycle_cases:
  "suffix ys lifecycle \<Longrightarrow> ys \<in> set (suffixes lifecycle)"
  by (simp add: in_set_suffixes)

lemma suffixes_lifecycle:
  "suffixes lifecycle =
     [[], drop 6 lifecycle, drop 5 lifecycle, drop 4 lifecycle, drop 3 lifecycle,
      drop 2 lifecycle, drop 1 lifecycle, lifecycle]"
  by (simp add: lifecycle_def)

lemma tailfree_tl: "tailfree (c # rest) \<Longrightarrow> tailfree rest"
  by (cases c) simp_all

lemma pending_tl_suffix: "suffix (pending rest) (pending (c # rest))"
  by (cases c) (simp_all add: suffix_ConsI suffix_appendI)

lemma pending_tl_Nil: "pending (c # rest) = [] \<Longrightarrow> pending rest = []"
  by (cases c) simp_all

lemma pending_lifecycle_head:
  "c \<in> set lifecycle \<Longrightarrow> pending (c # rest) = c # pending rest"
  by (cases c) (simp_all add: lifecycle_def)

lemma pending_other_head:
  "c \<notin> set lifecycle \<Longrightarrow> (\<forall>l. c \<noteq> S_async l) \<Longrightarrow> pending (c # rest) = pending rest"
  by (cases c) (simp_all add: lifecycle_def)

lemma async_not_lifecycle: "S_async l \<notin> set lifecycle"
  by (simp add: lifecycle_def)

lemma step_elim:
  assumes "step env i p = Some p'"
  obtains c rest s' d where
    "i < length (threads p)" and "todo (threads p ! i) = c # rest"
    and "exec env c (threads p ! i) (shared p) = Some (s', d)"
    and "shared p' = s'"
    and "threads p' = (threads p) [i := (threads p ! i) \<lparr> todo := rest, synthesisDoneResult := d \<rparr>]
                       @ spawned c (threads p ! i)"
    and "history p' = history p @ [(t_requestId (threads p ! i), c)]"
  using assms by (auto simp: step_def split: if_splits list.splits option.splits)

lemma spawned_cases:
  "spawned c t = (case c of S_async l \<Rightarrow> [t \<lparr> todo := lambda_body l, synthesisDoneResult := None \<rparr>]
                  | _ \<Rightarrow> [])"
  by (cases c) simp_all

lemma order_of_snoc:
  "order_of x (h @ [(r, c)]) = order_of x h @ (if c = x then [r] else [])"
  by (simp add: order_of_def)

lemma in_order_of: "r \<in> set (order_of c h) \<longleftrightarrow> (r, c) \<in> set h"
  by (force simp: order_of_def)

subsection \<open>What one statement leaves of the synthesizer\<close>

lemma FireResultEvent_Inr:
  "FireResultEvent env result s = Inr s' \<Longrightarrow> s' = s \<lparr> effects := effects s @ fired s result \<rparr>"
  by (simp add: FireResultEvent_eq split: if_splits)

lemma CreateResult_Inr:
  assumes "CreateResult env rid rsn audio len s = Inr v"
  shows "\<exists>out. m_audioOutput s = Some out \<and> fst v = created_result out rid rsn audio len
           \<and> snd v = s \<lparr> effects := effects s @ [ObjectRequested ''CSpxSynthesisResult''] \<rparr>"
  using assms
  by (cases "m_audioOutput s")
    (auto simp: CreateResult_without_output CreateResult_eq split: if_splits)

lemma write_chunks_Inr:
  assumes "write_chunks env rid cs s = Inr s'"
  shows "\<exists>es. s' = s \<lparr> effects := effects s @ es \<rparr>
           \<and> (es = [] \<or> (\<exists>out. es = concat (map (chunk_trace s out rid) cs)))"
proof (cases "m_audioOutput s")
  case None
  with assms have "s' = s" by (cases cs) (simp_all add: Write_without_output)
  then have "s' = s \<lparr> effects := effects s @ [] \<rparr>" by simp
  then show ?thesis by blast
next
  case (Some out)
  with assms have "s' = s \<lparr> effects := effects s @ concat (map (chunk_trace s out rid) cs) \<rparr>"
    by (simp add: write_chunks_eq split: if_splits)
  then show ?thesis by blast
qed

lemma ttsAdapter_Speak_Inr:
  assumes "ttsAdapter_Speak env text isSsml rid s = Inr v"
  shows "\<exists>a es. m_ttsAdapter s = Some a \<and> fst v = snd (adapter_Speak a text isSsml rid)
           \<and> snd v = s \<lparr> effects := effects s @ AdapterSpeak text isSsml rid # es \<rparr>
           \<and> (es = [] \<or> (\<exists>out. es = concat (map (chunk_trace s out rid)
                                      (fst (adapter_Speak a text isSsml rid)))))"
proof (cases "m_ttsAdapter s")
  case None
  with assms show ?thesis by (simp add: ttsAdapter_Speak_def)
next
  case (Some a)
  with assms obtain s' where
    w: "write_chunks env rid (fst (adapter_Speak a text isSsml rid))
          (s \<lparr> effects := effects s @ [AdapterSpeak text isSsml rid] \<rparr>) = Inr s'"
    and v: "snd v = s'" "fst v = snd (adapter_Speak a text isSsml rid)"
    by (auto simp: ttsAdapter_Speak_def split: sum.splits)
  from write_chunks_Inr [OF w] obtain es where
    "s' = s \<lparr> effects := effects s @ AdapterSpeak text isSsml rid # es \<rparr>"
    and "es = [] \<or> (\<exists>out. es = concat (map (chunk_trace s out rid)
                                      (fst (adapter_Speak a text isSsml rid))))"
    by auto
  with Some v show ?thesis by blast
qed

text \<open>No statement replaces the adapter.\<close>

lemma exec_adapter:
  assumes "exec env c t s = Some (s', d)"
  shows "m_ttsAdapter s' = m_ttsAdapter s"
proof (cases c)
  case S_FireStarted
  with assms obtain v where
    c: "CreateResult env (t_requestId t) SynthesizingAudioStarted [] 0 s = Inr v"
    and f: "FireResultEvent env (fst v) (snd v) = Inr s'"
    by (auto split: sum.splits)
  from CreateResult_Inr [OF c] FireResultEvent_Inr [OF f] show ?thesis by auto
next
  case S_AdapterSpeak
  with assms obtain v where
    "ttsAdapter_Speak env (t_text t) (t_isSsml t) (t_requestId t) s = Inr v" and "s' = snd v"
    by (auto split: sum.splits)
  with ttsAdapter_Speak_Inr [of env "t_text t" "t_isSsml t" "t_requestId t" s v]
  show ?thesis by auto
next
  case S_FireTerminal
  with assms obtain r where
    "FireResultEvent env (r \<lparr> events := True \<rparr>) s = Inr s'"
    by (auto split: option.splits sum.splits)
  from FireResultEvent_Inr [OF this] show ?thesis by auto
qed (use assms in \<open>auto simp: PushRequestIntoQueue_def WaitUntilRequestInFrontOfQueue_def
      PopRequestFromQueue_def audioOutput_WaitUntilDone_def
      split: sum.splits list.splits if_splits option.splits\<close>)

subsection \<open>The queue under one statement\<close>

lemma exec_queue:
  assumes "exec env c t s = Some (s', d)"
  shows "m_requestQueue s' =
           (if c = S_PushRequestIntoQueue then m_requestQueue s @ [t_requestId t]
            else if c = S_PopRequestFromQueue then tl (m_requestQueue s)
            else m_requestQueue s)"
    and "c = S_WaitUntilRequestInFrontOfQueue \<Longrightarrow> \<exists>q. m_requestQueue s = t_requestId t # q"
    and "c = S_PopRequestFromQueue \<Longrightarrow> m_requestQueue s \<noteq> []"
proof -
  show "m_requestQueue s' =
           (if c = S_PushRequestIntoQueue then m_requestQueue s @ [t_requestId t]
            else if c = S_PopRequestFromQueue then tl (m_requestQueue s)
            else m_requestQueue s)"
  proof (cases c)
    case S_FireStarted
    with assms obtain v where
      c: "CreateResult env (t_requestId t) SynthesizingAudioStarted [] 0 s = Inr v"
      and f: "FireResultEvent env (fst v) (snd v) = Inr s'"
      by (auto split: sum.splits)
    from CreateResult_Inr [OF c] FireResultEvent_Inr [OF f] S_FireStarted show ?thesis by auto
  next
    case S_AdapterSpeak
    with assms obtain v where
      "ttsAdapter_Speak env (t_text t) (t_isSsml t) (t_requestId t) s = Inr v" and "s' = snd v"
      by (auto split: sum.splits)
    with ttsAdapter_Speak_Inr [of env "t_text t" "t_isSsml t" "t_requestId t" s v] S_AdapterSpeak
    show ?thesis by auto
  next
    case S_FireTerminal
    with assms obtain r where
      "FireResultEvent env (r \<lparr> events := True \<rparr>) s = Inr s'"
      by (auto split: option.splits sum.splits)
    from FireResultEvent_Inr [OF this] S_FireTerminal show ?thesis by auto
  qed (use assms in \<open>auto simp: PushRequestIntoQueue_def WaitUntilRequestInFrontOfQueue_def
        PopRequestFromQueue_def audioOutput_WaitUntilDone_def
        split: sum.splits list.splits if_splits option.splits\<close>)
  show "c = S_WaitUntilRequestInFrontOfQueue \<Longrightarrow> \<exists>q. m_requestQueue s = t_requestId t # q"
    using assms
    by (auto simp: WaitUntilRequestInFrontOfQueue_def split: sum.splits list.splits if_splits)
  show "c = S_PopRequestFromQueue \<Longrightarrow> m_requestQueue s \<noteq> []"
    using assms by (auto simp: PopRequestFromQueue_def split: sum.splits list.splits)
qed

subsection \<open>The log under one statement\<close>

lemma submission_order_simps [simp]:
  "submission_order [] = []"
  "submission_order (e # es) = pushes e @ submission_order es"
  "submission_order (xs @ ys) = submission_order xs @ submission_order ys"
  by (simp_all add: submission_order_def)

lemma started_order_simps [simp]:
  "started_order [] = []"
  "started_order (e # es) = starts e @ started_order es"
  "started_order (xs @ ys) = started_order xs @ started_order ys"
  by (simp_all add: started_order_def)

lemma turns_append:
  "turns t (xs @ ys) = (case turns t xs of None \<Rightarrow> None | Some t' \<Rightarrow> turns t' ys)"
  by (induction xs arbitrary: t) (simp_all split: option.split)

lemma callbacks_of_log:
  "submission_order (callbacks_of tbl result) = []"
  "started_order (callbacks_of tbl result) = []"
  "turns t (callbacks_of tbl result) = Some t"
proof -
  have a: "submission_order (map (\<lambda>cb. CallbackInvoked object cb result) sg) = []" for object sg
    by (induction sg) (simp_all add: pushes_def)
  have b: "started_order (map (\<lambda>cb. CallbackInvoked object cb result) sg) = []" for object sg
    by (induction sg) (simp_all add: starts_def)
  have c: "turns t (map (\<lambda>cb. CallbackInvoked object cb result) sg) = Some t" for object sg
    by (induction sg) (simp_all add: turn_after_def)
  show "submission_order (callbacks_of tbl result) = []"
    by (induction tbl) (simp_all add: callbacks_of_def a pushes_def)
  show "started_order (callbacks_of tbl result) = []"
    by (induction tbl) (simp_all add: callbacks_of_def b starts_def)
  show "turns t (callbacks_of tbl result) = Some t"
    by (induction tbl) (simp_all add: callbacks_of_def turns_append c turn_after_def)
qed

lemma fired_log:
  "submission_order (fired s result) = []"
  "started_order (fired s result)
     = (if reason result = SynthesizingAudioStarted then [requestId result] else [])"
  "reason result = SynthesizingAudioStarted \<Longrightarrow>
     turns (Admitted (requestId result)) (fired s result) = Some (Active (requestId result))"
  "reason result \<noteq> SynthesizingAudioStarted \<Longrightarrow>
     turns (Active r) (fired s result) = Some (Active r)"
proof -
  show "submission_order (fired s result) = []"
    by (cases "reason result") (simp_all add: fired_def callbacks_of_log pushes_def)
  show "started_order (fired s result)
     = (if reason result = SynthesizingAudioStarted then [requestId result] else [])"
    by (cases "reason result") (simp_all add: fired_def callbacks_of_log starts_def)
  show "reason result = SynthesizingAudioStarted \<Longrightarrow>
     turns (Admitted (requestId result)) (fired s result) = Some (Active (requestId result))"
    by (simp add: fired_def callbacks_of_log turn_after_def)
  show "reason result \<noteq> SynthesizingAudioStarted \<Longrightarrow>
     turns (Active r) (fired s result) = Some (Active r)"
    by (cases "reason result")
      (simp_all add: fired_def callbacks_of_log turn_after_def in_turn_def)
qed

lemma chunk_trace_log:
  "submission_order (chunk_trace s out rid c) = []"
  "started_order (chunk_trace s out rid c) = []"
  "turns (Active r) (chunk_trace s out rid c) = Some (Active r)"
proof -
  have rsn: "reason (created_result out rid SynthesizingAudio (fst c) (unat (snd c)))
             \<noteq> SynthesizingAudioStarted"
    by (simp add: created_result_def InitSynthesisResult_def)
  show "submission_order (chunk_trace s out rid c) = []"
    by (simp add: chunk_trace_def fired_log pushes_def)
  show "started_order (chunk_trace s out rid c) = []"
    using rsn by (simp add: chunk_trace_def fired_log starts_def)
  show "turns (Active r) (chunk_trace s out rid c) = Some (Active r)"
    using rsn
    by (simp add: chunk_trace_def turns_append fired_log turn_after_def in_turn_def)
qed

lemma chunks_log:
  "submission_order (concat (map (chunk_trace s out rid) cs)) = []"
  "started_order (concat (map (chunk_trace s out rid) cs)) = []"
  "turns (Active r) (concat (map (chunk_trace s out rid) cs)) = Some (Active r)"
  by (induction cs) (simp_all add: chunk_trace_log turns_append)

lemma ttsAdapter_Speak_log:
  assumes "ttsAdapter_Speak env text isSsml rid s = Inr v"
  shows "\<exists>es. effects (snd v) = effects s @ AdapterSpeak text isSsml rid # es
           \<and> submission_order es = [] \<and> started_order es = []
           \<and> turns (Active r) es = Some (Active r)"
proof -
  from ttsAdapter_Speak_Inr [OF assms] obtain a es where
    "m_ttsAdapter s = Some a" and "fst v = snd (adapter_Speak a text isSsml rid)"
    and v: "snd v = s \<lparr> effects := effects s @ AdapterSpeak text isSsml rid # es \<rparr>"
    and d: "es = [] \<or> (\<exists>out. es = concat (map (chunk_trace s out rid)
                                      (fst (adapter_Speak a text isSsml rid))))"
    by (elim exE conjE) (rule that)
  from d have "submission_order es = [] \<and> started_order es = []
               \<and> turns (Active r) es = Some (Active r)"
  proof
    assume "es = []"
    then show ?thesis by simp
  next
    assume "\<exists>out. es = concat (map (chunk_trace s out rid) (fst (adapter_Speak a text isSsml rid)))"
    then obtain out where
      "es = concat (map (chunk_trace s out rid) (fst (adapter_Speak a text isSsml rid)))" by blast
    then show ?thesis by (simp add: chunks_log)
  qed
  moreover from v have "effects (snd v) = effects s @ AdapterSpeak text isSsml rid # es" by simp
  ultimately show ?thesis by blast
qed

lemma exec_log:
  assumes ex: "exec env c t s = Some (s', d)"
    and q: "\<forall>r. synthesisDoneResult t = Some r \<longrightarrow> reason r \<noteq> SynthesizingAudioStarted"
  shows "\<exists>es. effects s' = effects s @ es
     \<and> submission_order es = (if c = S_PushRequestIntoQueue then [t_requestId t] else [])
     \<and> started_order es = (if c = S_FireStarted then [t_requestId t] else [])
     \<and> (c = S_WaitUntilRequestInFrontOfQueue \<longrightarrow> turns Free es = Some (Admitted (t_requestId t)))
     \<and> (c = S_FireStarted \<longrightarrow>
          turns (Admitted (t_requestId t)) es = Some (Active (t_requestId t)))
     \<and> (c = S_AdapterSpeak \<or> c = S_WaitUntilDone \<or> c = S_FireTerminal \<longrightarrow>
          turns (Active (t_requestId t)) es = Some (Active (t_requestId t)))
     \<and> (c = S_PopRequestFromQueue \<longrightarrow> turns (Active (t_requestId t)) es = Some Free)
     \<and> (c \<notin> set (tl lifecycle) \<longrightarrow> (\<forall>tn. turns tn es = Some tn))"
proof (cases c)
  case S_PushRequestIntoQueue
  with ex have "effects s' = effects s @ [QueuePushed (t_requestId t)]"
    by (auto simp: PushRequestIntoQueue_def)
  with S_PushRequestIntoQueue show ?thesis
    by (intro exI [of _ "[QueuePushed (t_requestId t)]"])
      (simp add: pushes_def starts_def turn_after_def lifecycle_def)
next
  case S_WaitUntilRequestInFrontOfQueue
  with ex have "effects s' = effects s @ [QueueFront (t_requestId t)]"
    by (auto simp: WaitUntilRequestInFrontOfQueue_def split: list.splits if_splits)
  with S_WaitUntilRequestInFrontOfQueue show ?thesis
    by (intro exI [of _ "[QueueFront (t_requestId t)]"])
      (simp add: pushes_def starts_def turn_after_def lifecycle_def)
next
  case S_FireStarted
  with ex obtain v where
    c: "CreateResult env (t_requestId t) SynthesizingAudioStarted [] 0 s = Inr v"
    and f: "FireResultEvent env (fst v) (snd v) = Inr s'"
    by (auto split: sum.splits)
  from CreateResult_Inr [OF c] obtain out where
    v: "fst v = created_result out (t_requestId t) SynthesizingAudioStarted [] 0"
      "snd v = s \<lparr> effects := effects s @ [ObjectRequested ''CSpxSynthesisResult''] \<rparr>"
    by blast
  let ?res = "created_result out (t_requestId t) SynthesizingAudioStarted [] 0"
  have res: "reason ?res = SynthesizingAudioStarted" "requestId ?res = t_requestId t"
    by (simp_all add: created_result_def InitSynthesisResult_def)
  from FireResultEvent_Inr [OF f] v
  have e: "effects s' = effects s @ ObjectRequested ''CSpxSynthesisResult'' # fired s ?res"
    by simp
  have t: "turns (Admitted (t_requestId t)) (ObjectRequested ''CSpxSynthesisResult'' # fired s ?res)
           = Some (Active (t_requestId t))"
    using fired_log(3) [of ?res s] res by (simp add: turn_after_def)
  from S_FireStarted e t res show ?thesis
    by (intro exI [of _ "ObjectRequested ''CSpxSynthesisResult'' # fired s ?res"])
      (simp add: fired_log pushes_def starts_def lifecycle_def)
next
  case S_AdapterSpeak
  with ex obtain v where
    a: "ttsAdapter_Speak env (t_text t) (t_isSsml t) (t_requestId t) s = Inr v" and "s' = snd v"
    by (auto split: sum.splits)
  from ttsAdapter_Speak_log [OF a, of "t_requestId t"] \<open>s' = snd v\<close> obtain es where
    e: "effects s' = effects s @ AdapterSpeak (t_text t) (t_isSsml t) (t_requestId t) # es"
    and l: "submission_order es = []" "started_order es = []"
      "turns (Active (t_requestId t)) es = Some (Active (t_requestId t))"
    by blast
  from S_AdapterSpeak e l show ?thesis
    by (intro exI [of _ "AdapterSpeak (t_text t) (t_isSsml t) (t_requestId t) # es"])
      (simp add: pushes_def starts_def turn_after_def lifecycle_def)
next
  case S_WaitUntilDone
  with ex have "effects s' = effects s @ [OutputWaitUntilDone]"
    by (auto simp: audioOutput_WaitUntilDone_def split: option.splits)
  with S_WaitUntilDone show ?thesis
    by (intro exI [of _ "[OutputWaitUntilDone]"])
      (simp add: pushes_def starts_def turn_after_def in_turn_def lifecycle_def)
next
  case S_FireTerminal
  with ex obtain r where r: "synthesisDoneResult t = Some r"
    and f: "FireResultEvent env (r \<lparr> events := True \<rparr>) s = Inr s'"
    by (auto split: option.splits sum.splits)
  from q r have n: "reason (r \<lparr> events := True \<rparr>) \<noteq> SynthesizingAudioStarted" by simp
  from FireResultEvent_Inr [OF f]
  have e: "effects s' = effects s @ fired s (r \<lparr> events := True \<rparr>)" by simp
  from S_FireTerminal e n show ?thesis
    by (intro exI [of _ "fired s (r \<lparr> events := True \<rparr>)"]) (simp add: fired_log lifecycle_def)
next
  case S_PopRequestFromQueue
  with ex have "effects s' = effects s @ [QueuePopped]"
    by (auto simp: PopRequestFromQueue_def split: list.splits)
  with S_PopRequestFromQueue show ?thesis
    by (intro exI [of _ "[QueuePopped]"])
      (simp add: pushes_def starts_def turn_after_def in_turn_def lifecycle_def)
next
  case (S_async l)
  with ex have "effects s' = effects s @ []" by auto
  with S_async show ?thesis
    by (intro exI [of _ "[]"]) (simp add: lifecycle_def)
next
  case S_SetFutureResult
  with ex have "effects s' = effects s @ []" by auto
  with S_SetFutureResult show ?thesis
    by (intro exI [of _ "[]"]) (simp add: lifecycle_def)
next
  case (S_return f)
  with ex have "effects s' = effects s @ []" by auto
  with S_return show ?thesis
    by (intro exI [of _ "[]"]) (simp add: lifecycle_def)
qed

lemma exec_result:
  assumes ex: "exec env c t s = Some (s', d)" and r: "d = Some r"
    and q: "\<forall>r. synthesisDoneResult t = Some r \<longrightarrow> reason r \<noteq> SynthesizingAudioStarted"
    and a: "\<not> reports_started (m_ttsAdapter s) (t_text t) (t_isSsml t) (t_requestId t)"
  shows "reason r \<noteq> SynthesizingAudioStarted"
proof (cases c)
  case S_AdapterSpeak
  with ex obtain v where
    v: "ttsAdapter_Speak env (t_text t) (t_isSsml t) (t_requestId t) s = Inr v" and "d = Some (fst v)"
    by (auto split: sum.splits)
  with ttsAdapter_Speak_Inr [OF v] a r show ?thesis
    by (auto simp: reports_started_def)
next
  case S_FireTerminal
  with ex r obtain r0 where "synthesisDoneResult t = Some r0" "r = r0 \<lparr> events := True \<rparr>"
    by (auto split: option.splits sum.splits)
  with q show ?thesis by auto
qed (use ex r q in \<open>auto split: sum.splits option.splits\<close>)



section \<open>Concurrent requests: one step keeps the invariants\<close>


lemma static_ok_step:
  assumes st: "step env i p = Some p'" and inv: "static_ok p"
  shows "static_ok p'"
proof -
  from st obtain c rest s' d where
    i: "i < length (threads p)" and td: "todo (threads p ! i) = c # rest"
    and T': "threads p' = (threads p) [i := (threads p ! i) \<lparr> todo := rest, synthesisDoneResult := d \<rparr>]
                       @ spawned c (threads p ! i)"
    by (rule step_elim)
  from i have mem: "threads p ! i \<in> set (threads p)" by simp
  with inv td have old: "tailfree (c # rest)" "suffix (pending (c # rest)) lifecycle"
    by (auto simp: static_ok_def)
  have new: "tailfree rest" "suffix (pending rest) lifecycle"
    using old tailfree_tl pending_tl_suffix suffix_order.trans by blast+
  have sp: "\<forall>t \<in> set (spawned c (threads p ! i)). tailfree (todo t) \<and> suffix (pending (todo t)) lifecycle"
    by (cases c) (simp_all add: tailfree_lambda_body pending_lambda_body lambda_lifecycle_suffix)
  show ?thesis
    unfolding static_ok_def T'
  proof
    fix t
    assume "t \<in> set ((threads p) [i := (threads p ! i) \<lparr> todo := rest, synthesisDoneResult := d \<rparr>]
                       @ spawned c (threads p ! i))"
    then consider "t = (threads p ! i) \<lparr> todo := rest, synthesisDoneResult := d \<rparr>"
      | "t \<in> set (threads p)" | "t \<in> set (spawned c (threads p ! i))"
      using set_update_subset_insert [of "threads p" i] by auto
    then show "tailfree (todo t) \<and> suffix (pending (todo t)) lifecycle"
    proof cases
      case 1
      with new show ?thesis by simp
    next
      case 2
      with inv show ?thesis by (simp add: static_ok_def)
    next
      case 3
      with sp show ?thesis by simp
    qed
  qed
qed



lemma step_requests:
  assumes st: "step env i p = Some p'"
  shows "t_requestId ` set (threads p') = t_requestId ` set (threads p)"
proof -
  from st obtain c rest s' d where
    i: "i < length (threads p)"
    and T': "threads p' = (threads p) [i := (threads p ! i) \<lparr> todo := rest, synthesisDoneResult := d \<rparr>]
                       @ spawned c (threads p ! i)"
    by (rule step_elim)
  have "map t_requestId (threads p') =
        map t_requestId (threads p) @ map t_requestId (spawned c (threads p ! i))"
    using i by (simp add: T' map_update list_update_same_conv)
  moreover have "set (map t_requestId (spawned c (threads p ! i))) \<subseteq> {t_requestId (threads p ! i)}"
    by (cases c) simp_all
  moreover have "t_requestId (threads p ! i) \<in> set (map t_requestId (threads p))"
    using i by simp
  ultimately have "set (map t_requestId (threads p')) = set (map t_requestId (threads p))"
    by auto
  then show ?thesis by simp
qed

lemma known_step:
  assumes st: "step env i p = Some p'" and inv: "known p"
  shows "known p'"
proof -
  from st obtain c rest s' d where
    i: "i < length (threads p)"
    and H': "history p' = history p @ [(t_requestId (threads p ! i), c)]"
    by (rule step_elim)
  from i have "t_requestId (threads p ! i) \<in> t_requestId ` set (threads p)" by simp
  with inv show ?thesis
    by (auto simp: known_def H' step_requests [OF st])
qed

lemma spawned_not_async: "(\<forall>l. c \<noteq> S_async l) \<Longrightarrow> spawned c t = []"
  by (cases c) simp_all

lemma static_okD:
  "static_ok p \<Longrightarrow> i < length (threads p) \<Longrightarrow>
   tailfree (todo (threads p ! i)) \<and> suffix (pending (todo (threads p ! i))) lifecycle"
  by (simp add: static_ok_def)

lemma one_token_step:
  assumes st: "step env i p = Some p'" and ot: "one_token p" and so: "static_ok p"
  shows "one_token p'"
proof -
  from st obtain c rest s' d where
    i: "i < length (threads p)" and td: "todo (threads p ! i) = c # rest"
    and T': "threads p' = (threads p) [i := (threads p ! i) \<lparr> todo := rest, synthesisDoneResult := d \<rparr>]
                       @ spawned c (threads p ! i)"
    by (rule step_elim)
  let ?T = "threads p"
  let ?n = "length ?T"
  let ?t' = "(?T ! i) \<lparr> todo := rest, synthesisDoneResult := d \<rparr>"
  from static_okD [OF so i] td have tf: "tailfree (c # rest)" by simp
  have old: "pending (todo (?T ! j)) = [] \<Longrightarrow> pending (todo (?T [i := ?t'] ! j)) = []"
    if "j < ?n" for j
    using that td pending_tl_Nil [of c rest] by (cases "j = i") simp_all
  have rid: "t_requestId (?T [i := ?t'] ! j) = t_requestId (?T ! j)" if "j < ?n" for j
    using that by (cases "j = i") simp_all
  have old_token: "pending (todo (?T [i := ?t'] ! k)) = []"
    if "j < ?n" "k < ?n" "j \<noteq> k" "t_requestId (?T ! j) = t_requestId (?T ! k)"
      "pending (todo (?T ! j)) \<noteq> []" for j k
    using ot that old unfolding one_token_def by blast
  show ?thesis
  proof (cases "\<exists>l. c = S_async l")
    case False
    then have T'': "threads p' = ?T [i := ?t']" by (simp add: T' spawned_not_async)
    show ?thesis
      unfolding one_token_def T''
    proof (intro allI impI)
      fix j k
      assume j: "j < length (?T [i := ?t'])" and k: "k < length (?T [i := ?t'])" and "j \<noteq> k"
        and "t_requestId (?T [i := ?t'] ! j) = t_requestId (?T [i := ?t'] ! k)"
        and pj: "pending (todo (?T [i := ?t'] ! j)) \<noteq> []"
      moreover from j pj have "pending (todo (?T ! j)) \<noteq> []" using old by auto
      ultimately show "pending (todo (?T [i := ?t'] ! k)) = []"
        using old_token [of j k] rid by simp
    qed
  next
    case True
    then obtain l where c: "c = S_async l" by blast
    let ?u = "(?T ! i) \<lparr> todo := lambda_body l, synthesisDoneResult := None \<rparr>"
    from c have T'': "threads p' = ?T [i := ?t'] @ [?u]" by (simp add: T')
    from tf c have pr: "pending rest = []" by simp
    from td c have pt: "pending (todo (?T ! i)) \<noteq> []" by (simp add: lambda_lifecycle_not_Nil)
    have pi: "pending (todo (?T [i := ?t'] ! i)) = []" using i pr by simp
    show ?thesis
      unfolding one_token_def T''
    proof (intro allI impI)
      fix j k
      assume j: "j < length (?T [i := ?t'] @ [?u])" and k: "k < length (?T [i := ?t'] @ [?u])"
        and jk: "j \<noteq> k"
        and r: "t_requestId ((?T [i := ?t'] @ [?u]) ! j) = t_requestId ((?T [i := ?t'] @ [?u]) ! k)"
        and pj: "pending (todo ((?T [i := ?t'] @ [?u]) ! j)) \<noteq> []"
      show "pending (todo ((?T [i := ?t'] @ [?u]) ! k)) = []"
      proof (cases "k < ?n")
        case kn: True
        show ?thesis
        proof (cases "j < ?n")
          case jn: True
          from jn pj have "pending (todo (?T ! j)) \<noteq> []" using old by (auto simp: nth_append)
          with jn kn jk r show ?thesis
            using old_token [of j k] rid by (simp add: nth_append)
        next
          case False
          with j have jn: "j = ?n" by simp
          show ?thesis
          proof (cases "k = i")
            case True
            with kn pi show ?thesis by (simp add: nth_append)
          next
            case False
            from r jn kn have "t_requestId (?T ! i) = t_requestId (?T ! k)"
              using rid [of k] by (simp add: nth_append)
            with False i kn pt show ?thesis
              using old_token [of i k] by (simp add: nth_append)
          qed
        qed
      next
        case False
        with k have kn: "k = ?n" by simp
        with jk j have jn: "j < ?n" by simp
        from jn pj pi have ji: "j \<noteq> i" by (auto simp: nth_append)
        from jn pj have pj': "pending (todo (?T ! j)) \<noteq> []" using old by (auto simp: nth_append)
        from r jn kn have "t_requestId (?T ! j) = t_requestId (?T ! i)"
          using rid [of j] by (simp add: nth_append)
        with ot jn i ji pj' have "pending (todo (?T ! i)) = []"
          unfolding one_token_def by blast
        with pt show ?thesis by simp
      qed
    qed
  qed
qed

lemma token_ok_step:
  assumes st: "step env i p = Some p'" and tk: "token_ok p" and ot: "one_token p" and so: "static_ok p"
  shows "token_ok p'"
proof -
  from st obtain c rest s' d where
    i: "i < length (threads p)" and td: "todo (threads p ! i) = c # rest"
    and T': "threads p' = (threads p) [i := (threads p ! i) \<lparr> todo := rest, synthesisDoneResult := d \<rparr>]
                       @ spawned c (threads p ! i)"
    and H': "history p' = history p @ [(t_requestId (threads p ! i), c)]"
    by (rule step_elim)
  let ?T = "threads p"
  let ?n = "length ?T"
  let ?r = "t_requestId (?T ! i)"
  let ?t' = "(?T ! i) \<lparr> todo := rest, synthesisDoneResult := d \<rparr>"
  from static_okD [OF so i] td
  have tf: "tailfree (c # rest)" and sf: "suffix (pending (c # rest)) lifecycle" by simp_all
  from sf have dist: "distinct (pending (c # rest))"
    using distinct_lifecycle distinct_suffix by blast
  have tk_i: "(x \<in> set (pending (c # rest))) = ((?r, x) \<notin> set (history p))"
    if "pending (c # rest) \<noteq> []" "x \<in> set lifecycle" for x
    using tk i td that unfolding token_ok_def by auto
  have tk_j: "(x \<in> set (pending (todo (?T ! j)))) = ((t_requestId (?T ! j), x) \<notin> set (history p))"
    if "j < ?n" "pending (todo (?T ! j)) \<noteq> []" "x \<in> set lifecycle" for j x
    using tk that unfolding token_ok_def by auto
  have other: "(x \<in> set (pending (todo (?T ! j)))) = ((t_requestId (?T ! j), x) \<notin> set (history p'))"
    if "j < ?n" "j \<noteq> i" "pending (todo (?T ! j)) \<noteq> []" "x \<in> set lifecycle" for j x
  proof (cases "c \<in> set lifecycle")
    case True
    then have "pending (todo (?T ! i)) \<noteq> []" using td by (simp add: pending_lifecycle_head)
    with ot i that have "t_requestId (?T ! j) \<noteq> ?r"
      unfolding one_token_def by metis
    with tk_j [OF that(1) that(3) that(4)] show ?thesis by (simp add: H')
  next
    case False
    with that(4) have "x \<noteq> c" by auto
    with tk_j [OF that(1) that(3) that(4)] show ?thesis by (simp add: H')
  qed
  show ?thesis
    unfolding token_ok_def
  proof (intro allI impI ballI)
    fix j x
    assume j: "j < length (threads p')" and pj: "pending (todo (threads p' ! j)) \<noteq> []"
      and x: "x \<in> set lifecycle"
    show "(x \<in> set (pending (todo (threads p' ! j))))
          = ((t_requestId (threads p' ! j), x) \<notin> set (history p'))"
    proof (cases "j < ?n")
      case jn: True
      show ?thesis
      proof (cases "j = i")
        case False
        with jn have "threads p' ! j = ?T ! j" by (simp add: T' nth_append)
        with other [OF jn False _ x] pj show ?thesis by simp
      next
        case True
        with i have tj: "threads p' ! j = ?t'" by (simp add: T' nth_append)
        with pj have pr: "pending rest \<noteq> []" by simp
        show ?thesis
        proof (cases "c \<in> set lifecycle")
          case True
          then have pc: "pending (c # rest) = c # pending rest" by (rule pending_lifecycle_head)
          with dist have "c \<notin> set (pending rest)" by simp
          with tk_i [of x] pc x show ?thesis by (auto simp: tj H')
        next
          case False
          with x have xc: "x \<noteq> c" by auto
          show ?thesis
          proof (cases "\<exists>l. c = S_async l")
            case True
            with tf pr show ?thesis by auto
          next
            case False
            with \<open>c \<notin> set lifecycle\<close> have "pending (c # rest) = pending rest"
              by (simp add: pending_other_head)
            with tk_i [of x] pr x xc show ?thesis by (simp add: tj H')
          qed
        qed
      qed
    next
      case False
      with j have "spawned c (?T ! i) \<noteq> []" by (auto simp: T')
      then obtain l where c: "c = S_async l" by (cases c) auto
      from False j have jn: "j = ?n" by (simp add: T' c)
      from tf c have pr: "pending rest = []" by simp
      have tj: "threads p' ! j = (?T ! i) \<lparr> todo := lambda_body l, synthesisDoneResult := None \<rparr>"
        by (simp add: T' c jn nth_append)
      have pc: "pending (c # rest) = lambda_lifecycle l" by (simp add: c pr)
      from x have xc: "x \<noteq> c" by (auto simp: c async_not_lifecycle)
      from tk_i [of x] pc x xc lambda_lifecycle_not_Nil [of l] show ?thesis
        by (simp add: tj H' pending_lambda_body)
    qed
  qed
qed

lemma all_or_token_step:
  assumes st: "step env i p = Some p'" and at: "all_or_token p" and tk: "token_ok p" and so: "static_ok p"
  shows "all_or_token p'"
proof -
  from st obtain c rest s' d where
    i: "i < length (threads p)" and td: "todo (threads p ! i) = c # rest"
    and T': "threads p' = (threads p) [i := (threads p ! i) \<lparr> todo := rest, synthesisDoneResult := d \<rparr>]
                       @ spawned c (threads p ! i)"
    and H': "history p' = history p @ [(t_requestId (threads p ! i), c)]"
    by (rule step_elim)
  let ?T = "threads p"
  let ?n = "length ?T"
  let ?r = "t_requestId (?T ! i)"
  let ?t' = "(?T ! i) \<lparr> todo := rest, synthesisDoneResult := d \<rparr>"
  from static_okD [OF so i] td have tf: "tailfree (c # rest)" by simp
  have len: "?n \<le> length (threads p')" by (simp add: T')
  have same: "t_requestId (threads p' ! k) = t_requestId (?T ! k)" if "k < ?n" for k
    using that by (cases "k = i") (simp_all add: T' nth_append)
  have keep: "threads p' ! k = ?T ! k" if "k < ?n" "k \<noteq> i" for k
    using that by (simp add: T' nth_append)
  have origin: "\<exists>j0 < ?n. t_requestId (threads p' ! j) = t_requestId (?T ! j0)"
    if "j < length (threads p')" for j
  proof (cases "j < ?n")
    case True
    with same show ?thesis by blast
  next
    case False
    with that have "spawned c (?T ! i) \<noteq> []" by (auto simp: T')
    then obtain l where c: "c = S_async l" by (cases c) auto
    from False that have "j = ?n" by (simp add: T' c)
    then have "t_requestId (threads p' ! j) = ?r" by (simp add: T' c nth_append)
    with i show ?thesis by blast
  qed
  have token_moves:
    "(\<forall>x \<in> set lifecycle. (?r, x) \<in> set (history p'))
     \<or> (\<exists>k < length (threads p'). t_requestId (threads p' ! k) = ?r
            \<and> pending (todo (threads p' ! k)) \<noteq> [])"
    if pt: "pending (c # rest) \<noteq> []"
  proof (cases "pending rest = []")
    case False
    with i len same [OF i] show ?thesis
      by (intro disjI2 exI [of _ i]) (simp add: T' nth_append)
  next
    case True
    show ?thesis
    proof (cases "\<exists>l. c = S_async l")
      case True
      then obtain l where c: "c = S_async l" by blast
      have "threads p' ! ?n = (?T ! i) \<lparr> todo := lambda_body l, synthesisDoneResult := None \<rparr>"
        by (simp add: T' c nth_append)
      then show ?thesis
        by (intro disjI2 exI [of _ ?n])
          (simp add: T' c pending_lambda_body lambda_lifecycle_not_Nil)
    next
      case False
      show ?thesis
      proof (cases "c \<in> set lifecycle")
        case False
        with \<open>\<not> (\<exists>l. c = S_async l)\<close> have "pending (c # rest) = pending rest"
          by (simp add: pending_other_head)
        with pt True show ?thesis by simp
      next
        case True
        with \<open>pending rest = []\<close> have pc: "pending (c # rest) = [c]"
          by (simp add: pending_lifecycle_head)
        have "(x \<in> set [c]) = ((?r, x) \<notin> set (history p))" if "x \<in> set lifecycle" for x
          using tk i td pc that unfolding token_ok_def by force
        then have "\<forall>x \<in> set lifecycle. (?r, x) \<in> set (history p')"
          by (auto simp: H')
        then show ?thesis ..
      qed
    qed
  qed
  show ?thesis
    unfolding all_or_token_def
  proof (intro allI impI)
    fix j
    assume j: "j < length (threads p')"
    from origin [OF j] obtain j0 where j0: "j0 < ?n"
      and rj: "t_requestId (threads p' ! j) = t_requestId (?T ! j0)" by blast
    from at j0 consider
      (all) "\<forall>x \<in> set lifecycle. (t_requestId (?T ! j0), x) \<in> set (history p)"
      | (token) k where "k < ?n" "t_requestId (?T ! k) = t_requestId (?T ! j0)"
          "pending (todo (?T ! k)) \<noteq> []"
      unfolding all_or_token_def by blast
    then show "(\<forall>x \<in> set lifecycle. (t_requestId (threads p' ! j), x) \<in> set (history p'))
        \<or> (\<exists>k < length (threads p').
              t_requestId (threads p' ! k) = t_requestId (threads p' ! j)
              \<and> pending (todo (threads p' ! k)) \<noteq> [])"
    proof cases
      case all
      then show ?thesis by (simp add: rj H')
    next
      case (token k)
      show ?thesis
      proof (cases "k = i")
        case False
        with token len keep [of k] same [of k] show ?thesis
          by (intro disjI2 exI [of _ k]) (simp add: rj)
      next
        case True
        with token td have "pending (c # rest) \<noteq> []" and "t_requestId (?T ! j0) = ?r" by simp_all
        with token_moves show ?thesis by (simp add: rj)
      qed
    qed
  qed
qed

lemma suffix_lifecycle_head:
  assumes "suffix (c # xs) lifecycle"
  shows "c = S_PushRequestIntoQueue \<Longrightarrow>
           S_FireStarted \<in> set (c # xs) \<and> S_WaitUntilRequestInFrontOfQueue \<in> set (c # xs)"
    and "c = S_FireStarted \<Longrightarrow>
           S_WaitUntilRequestInFrontOfQueue \<notin> set (c # xs) \<and> S_PopRequestFromQueue \<in> set (c # xs)"
    and "c = S_PopRequestFromQueue \<Longrightarrow>
           S_WaitUntilRequestInFrontOfQueue \<notin> set (c # xs) \<and> S_FireStarted \<notin> set (c # xs)"
    and "c = S_WaitUntilRequestInFrontOfQueue \<Longrightarrow> S_FireStarted \<in> set (c # xs)"
    and "c = S_AdapterSpeak \<or> c = S_WaitUntilDone \<or> c = S_FireTerminal \<Longrightarrow>
           S_WaitUntilRequestInFrontOfQueue \<notin> set (c # xs) \<and> S_FireStarted \<notin> set (c # xs)
           \<and> S_PopRequestFromQueue \<in> set (c # xs)"
  using suffix_lifecycle_cases [OF assms] unfolding suffixes_lifecycle
  by (auto simp: lifecycle_def)

lemma token_position:
  assumes tk: "token_ok p" and so: "static_ok p" and i: "i < length (threads p)"
    and td: "todo (threads p ! i) = c # rest"
  shows "c = S_PushRequestIntoQueue \<Longrightarrow>
           (t_requestId (threads p ! i), S_PushRequestIntoQueue) \<notin> set (history p)
           \<and> (t_requestId (threads p ! i), S_FireStarted) \<notin> set (history p)
           \<and> (t_requestId (threads p ! i), S_WaitUntilRequestInFrontOfQueue) \<notin> set (history p)"
    and "c = S_FireStarted \<Longrightarrow>
           (t_requestId (threads p ! i), S_WaitUntilRequestInFrontOfQueue) \<in> set (history p)
           \<and> (t_requestId (threads p ! i), S_PopRequestFromQueue) \<notin> set (history p)
           \<and> (t_requestId (threads p ! i), S_FireStarted) \<notin> set (history p)"
    and "c = S_PopRequestFromQueue \<Longrightarrow>
           (t_requestId (threads p ! i), S_WaitUntilRequestInFrontOfQueue) \<in> set (history p)
           \<and> (t_requestId (threads p ! i), S_PopRequestFromQueue) \<notin> set (history p)
           \<and> (t_requestId (threads p ! i), S_FireStarted) \<in> set (history p)"
    and "c = S_WaitUntilRequestInFrontOfQueue \<Longrightarrow>
           (t_requestId (threads p ! i), S_WaitUntilRequestInFrontOfQueue) \<notin> set (history p)
           \<and> (t_requestId (threads p ! i), S_FireStarted) \<notin> set (history p)"
    and "c = S_AdapterSpeak \<or> c = S_WaitUntilDone \<or> c = S_FireTerminal \<Longrightarrow>
           (t_requestId (threads p ! i), S_WaitUntilRequestInFrontOfQueue) \<in> set (history p)
           \<and> (t_requestId (threads p ! i), S_PopRequestFromQueue) \<notin> set (history p)
           \<and> (t_requestId (threads p ! i), S_FireStarted) \<in> set (history p)"
proof -
  let ?r = "t_requestId (threads p ! i)"
  from static_okD [OF so i] td have sf: "suffix (pending (c # rest)) lifecycle" by simp
  have tok: "(x \<in> set (pending (c # rest))) = ((?r, x) \<notin> set (history p))"
    if "pending (c # rest) \<noteq> []" "x \<in> set lifecycle" for x
    using tk i td that unfolding token_ok_def by auto
  have mem: "S_PushRequestIntoQueue \<in> set lifecycle" "S_WaitUntilRequestInFrontOfQueue \<in> set lifecycle"
    "S_FireStarted \<in> set lifecycle" "S_PopRequestFromQueue \<in> set lifecycle"
    by (simp_all add: lifecycle_def)
  {
    assume c: "c = S_PushRequestIntoQueue"
    with sf have s: "suffix (c # pending rest) lifecycle" by simp
    from c have ne: "pending (c # rest) \<noteq> []" "pending (c # rest) = c # pending rest" by simp_all
    from suffix_lifecycle_head(1) [OF s c] tok [OF ne(1)] ne(2) c mem
    show "(?r, S_PushRequestIntoQueue) \<notin> set (history p) \<and> (?r, S_FireStarted) \<notin> set (history p)
          \<and> (?r, S_WaitUntilRequestInFrontOfQueue) \<notin> set (history p)"
      by (metis list.set_intros(1))
  }
  {
    assume c: "c = S_FireStarted"
    with sf have s: "suffix (c # pending rest) lifecycle" by simp
    from c have ne: "pending (c # rest) \<noteq> []" "pending (c # rest) = c # pending rest" by simp_all
    from suffix_lifecycle_head(2) [OF s c] tok [OF ne(1)] ne(2) c mem
    show "(?r, S_WaitUntilRequestInFrontOfQueue) \<in> set (history p)
           \<and> (?r, S_PopRequestFromQueue) \<notin> set (history p)
           \<and> (?r, S_FireStarted) \<notin> set (history p)"
      by (metis list.set_intros(1))
  }
  {
    assume c: "c = S_PopRequestFromQueue"
    with sf have s: "suffix (c # pending rest) lifecycle" by simp
    from c have ne: "pending (c # rest) \<noteq> []" "pending (c # rest) = c # pending rest" by simp_all
    from suffix_lifecycle_head(3) [OF s c] tok [OF ne(1)] ne(2) c mem
    show "(?r, S_WaitUntilRequestInFrontOfQueue) \<in> set (history p)
           \<and> (?r, S_PopRequestFromQueue) \<notin> set (history p)
           \<and> (?r, S_FireStarted) \<in> set (history p)"
      by (metis list.set_intros(1))
  }
  {
    assume c: "c = S_WaitUntilRequestInFrontOfQueue"
    with sf have s: "suffix (c # pending rest) lifecycle" by simp
    from c have ne: "pending (c # rest) \<noteq> []" "pending (c # rest) = c # pending rest" by simp_all
    from suffix_lifecycle_head(4) [OF s c] tok [OF ne(1)] ne(2) c mem
    show "(?r, S_WaitUntilRequestInFrontOfQueue) \<notin> set (history p)
           \<and> (?r, S_FireStarted) \<notin> set (history p)"
      by (metis list.set_intros(1))
  }
  {
    assume c: "c = S_AdapterSpeak \<or> c = S_WaitUntilDone \<or> c = S_FireTerminal"
    then have pc: "pending (c # rest) = c # pending rest" by auto
    with sf have s: "suffix (c # pending rest) lifecycle" by simp
    from pc have ne: "pending (c # rest) \<noteq> []" by simp
    from suffix_lifecycle_head(5) [OF s c] tok [OF ne] pc mem
    show "(?r, S_WaitUntilRequestInFrontOfQueue) \<in> set (history p)
           \<and> (?r, S_PopRequestFromQueue) \<notin> set (history p)
           \<and> (?r, S_FireStarted) \<in> set (history p)"
      by metis
  }
qed

lemma started_waited_step:
  assumes st: "step env i p = Some p'" and sw: "started_waited p" and tk: "token_ok p"
    and so: "static_ok p"
  shows "started_waited p'"
proof -
  from st obtain c rest s' d where
    i: "i < length (threads p)" and td: "todo (threads p ! i) = c # rest"
    and H': "history p' = history p @ [(t_requestId (threads p ! i), c)]"
    by (rule step_elim)
  from token_position(2) [OF tk so i td] sw show ?thesis
    by (auto simp: started_waited_def H')
qed

lemma queue_ok_step:
  assumes st: "step env i p = Some p'" and qo: "queue_ok p" and sw: "started_waited p"
    and tk: "token_ok p" and so: "static_ok p"
  shows "queue_ok p'"
proof -
  from st obtain c rest s' d where
    i: "i < length (threads p)" and td: "todo (threads p ! i) = c # rest"
    and ex: "exec env c (threads p ! i) (shared p) = Some (s', d)"
    and S': "shared p' = s'"
    and H': "history p' = history p @ [(t_requestId (threads p ! i), c)]"
    by (rule step_elim)
  let ?r = "t_requestId (threads p ! i)"
  let ?Q = "m_requestQueue (shared p)"
  let ?H = "history p"
  let ?push = "S_PushRequestIntoQueue"
  let ?wait = "S_WaitUntilRequestInFrontOfQueue"
  let ?pop = "S_PopRequestFromQueue"
  let ?fs = "S_FireStarted"
  from qo have q1: "order_of ?push ?H = order_of ?pop ?H @ ?Q"
    and q2: "distinct (order_of ?push ?H)"
    and q3: "order_of ?fs ?H = order_of ?pop ?H @ front_started p"
    and q4: "\<And>r. in_window p r \<Longrightarrow> \<exists>q. ?Q = r # q"
    unfolding queue_ok_def by blast+
  note pos = token_position [OF tk so i td]
  note eq = exec_queue [OF ex]
  consider (push) "c = ?push" | (wait) "c = ?wait" | (fs) "c = ?fs" | (pop) "c = ?pop"
    | (other) "c \<noteq> ?push" "c \<noteq> ?wait" "c \<noteq> ?fs" "c \<noteq> ?pop"
    by blast
  then show ?thesis
  proof cases
    case push
    from eq(1) push have Q': "m_requestQueue (shared p') = ?Q @ [?r]" by (simp add: S')
    from pos(1) [OF push] have np: "?r \<notin> set (order_of ?push ?H)" and nf: "(?r, ?fs) \<notin> set ?H"
      by (simp_all add: in_order_of)
    have f: "front_started p' = front_started p"
      using nf by (cases ?Q) (simp_all add: front_started_def Q' H' push)
    have w: "in_window p' r = in_window p r" for r
      by (auto simp: in_window_def H' push)
    have c1: "order_of ?push (history p') = order_of ?pop (history p') @ m_requestQueue (shared p')"
      using q1 by (simp add: order_of_snoc H' push Q')
    have c2: "distinct (order_of ?push (history p'))"
      using q2 np by (simp add: order_of_snoc H' push)
    have c3: "order_of ?fs (history p') = order_of ?pop (history p') @ front_started p'"
      using q3 by (simp add: order_of_snoc H' push f)
    have c4: "\<exists>q. m_requestQueue (shared p') = r # q" if "in_window p' r" for r
      using q4 [of r] that by (auto simp: w Q')
    from c1 c2 c3 c4 show ?thesis unfolding queue_ok_def by blast
  next
    case wait
    from eq(1) wait have Q': "m_requestQueue (shared p') = ?Q" by (simp add: S')
    from eq(2) [OF wait] obtain q where Q: "?Q = ?r # q" by blast
    have f: "front_started p' = front_started p"
      by (cases ?Q) (simp_all add: front_started_def Q' H' wait)
    have w: "in_window p' r \<Longrightarrow> r = ?r \<or> in_window p r" for r
      by (auto simp: in_window_def H' wait)
    have c1: "order_of ?push (history p') = order_of ?pop (history p') @ m_requestQueue (shared p')"
      using q1 by (simp add: order_of_snoc H' wait Q')
    have c2: "distinct (order_of ?push (history p'))"
      using q2 by (simp add: order_of_snoc H' wait)
    have c3: "order_of ?fs (history p') = order_of ?pop (history p') @ front_started p'"
      using q3 by (simp add: order_of_snoc H' wait f)
    have c4: "\<exists>q. m_requestQueue (shared p') = r # q" if "in_window p' r" for r
      using q4 [of r] w [OF that] Q by (auto simp: Q')
    from c1 c2 c3 c4 show ?thesis unfolding queue_ok_def by blast
  next
    case fs
    from eq(1) fs have Q': "m_requestQueue (shared p') = ?Q" by (simp add: S')
    from pos(2) [OF fs] have "in_window p ?r" and nf: "(?r, ?fs) \<notin> set ?H"
      by (simp_all add: in_window_def)
    with q4 obtain q where Q: "?Q = ?r # q" by blast
    from Q nf have f: "front_started p = []" "front_started p' = [?r]"
      by (simp_all add: front_started_def Q' H' fs)
    have w: "in_window p' r = in_window p r" for r
      by (auto simp: in_window_def H' fs)
    have c1: "order_of ?push (history p') = order_of ?pop (history p') @ m_requestQueue (shared p')"
      using q1 by (simp add: order_of_snoc H' fs Q')
    have c2: "distinct (order_of ?push (history p'))"
      using q2 by (simp add: order_of_snoc H' fs)
    have c3: "order_of ?fs (history p') = order_of ?pop (history p') @ front_started p'"
      using q3 by (simp add: order_of_snoc H' fs f)
    have c4: "\<exists>q. m_requestQueue (shared p') = r # q" if "in_window p' r" for r
      using q4 [of r] that by (simp add: w Q')
    from c1 c2 c3 c4 show ?thesis unfolding queue_ok_def by blast
  next
    case pop
    from pos(3) [OF pop] have win: "in_window p ?r" and sf: "(?r, ?fs) \<in> set ?H"
      by (simp_all add: in_window_def)
    with q4 obtain q where Q: "?Q = ?r # q" by blast
    from eq(1) pop Q have Q': "m_requestQueue (shared p') = q" by (simp add: S')
    from Q sf have f: "front_started p = [?r]" by (simp add: front_started_def)
    from q1 q2 Q have dist: "distinct (order_of ?pop ?H @ ?r # q)" by simp
    have nw: "\<not> in_window p' r" for r
    proof
      assume a: "in_window p' r"
      then have "r \<noteq> ?r" and "in_window p r" by (auto simp: in_window_def H' pop)
      with q4 [of r] Q show False by auto
    qed
    have f': "front_started p' = []"
    proof (cases q)
      case Nil
      then show ?thesis by (simp add: front_started_def Q')
    next
      case (Cons a q')
      have "(a, ?fs) \<notin> set ?H"
      proof
        assume "(a, ?fs) \<in> set ?H"
        with sw have "(a, ?wait) \<in> set ?H" by (simp add: started_waited_def)
        moreover from dist Cons have "a \<notin> set (order_of ?pop ?H)" by auto
        then have "(a, ?pop) \<notin> set ?H" by (simp add: in_order_of)
        ultimately have "in_window p a" by (simp add: in_window_def)
        with q4 [of a] Q have "a = ?r" by auto
        with dist Cons show False by simp
      qed
      then show ?thesis by (simp add: front_started_def Q' Cons H' pop)
    qed
    have c1: "order_of ?push (history p') = order_of ?pop (history p') @ m_requestQueue (shared p')"
      using q1 by (simp add: order_of_snoc H' pop Q' Q)
    have c2: "distinct (order_of ?push (history p'))"
      using q2 by (simp add: order_of_snoc H' pop)
    have c3: "order_of ?fs (history p') = order_of ?pop (history p') @ front_started p'"
      using q3 by (simp add: order_of_snoc H' pop f f')
    from c1 c2 c3 nw show ?thesis unfolding queue_ok_def by blast
  next
    case other
    from eq(1) other have Q': "m_requestQueue (shared p') = ?Q" by (simp add: S')
    have f: "front_started p' = front_started p"
      using other by (cases ?Q) (simp_all add: front_started_def Q' H')
    have w: "in_window p' r = in_window p r" for r
      using other by (auto simp: in_window_def H')
    have c1: "order_of ?push (history p') = order_of ?pop (history p') @ m_requestQueue (shared p')"
      using q1 other by (simp add: order_of_snoc H' Q')
    have c2: "distinct (order_of ?push (history p'))"
      using q2 other by (simp add: order_of_snoc H')
    have c3: "order_of ?fs (history p') = order_of ?pop (history p') @ front_started p'"
      using q3 other by (simp add: order_of_snoc H' f)
    have c4: "\<exists>q. m_requestQueue (shared p') = r # q" if "in_window p' r" for r
      using q4 [of r] that by (simp add: w Q')
    from c1 c2 c3 c4 show ?thesis unfolding queue_ok_def by blast
  qed
qed


subsection \<open>The log and the history\<close>

lemma quiet_step:
  assumes st: "step env i p = Some p'" and q: "quiet p"
  shows "quiet p'"
proof -
  from st obtain c rest s' d where
    i: "i < length (threads p)"
    and ex: "exec env c (threads p ! i) (shared p) = Some (s', d)"
    and S': "shared p' = s'"
    and T': "threads p' = (threads p) [i := (threads p ! i) \<lparr> todo := rest, synthesisDoneResult := d \<rparr>]
                       @ spawned c (threads p ! i)"
    by (rule step_elim)
  let ?ok = "\<lambda>t. \<not> reports_started (m_ttsAdapter (shared p)) (t_text t) (t_isSsml t) (t_requestId t)
        \<and> (\<forall>r. synthesisDoneResult t = Some r \<longrightarrow> reason r \<noteq> SynthesizingAudioStarted)"
  from q have old: "?ok t" if "t \<in> set (threads p)" for t
    using that unfolding quiet_def by blast
  from i have mem: "threads p ! i \<in> set (threads p)" by simp
  have ad: "m_ttsAdapter (shared p') = m_ttsAdapter (shared p)"
    using exec_adapter [OF ex] by (simp add: S')
  have upd: "?ok ((threads p ! i) \<lparr> todo := rest, synthesisDoneResult := d \<rparr>)"
  proof -
    have "reason r \<noteq> SynthesizingAudioStarted" if "d = Some r" for r
      using exec_result [OF ex that] old [OF mem] by blast
    with old [OF mem] show ?thesis by simp
  qed
  have sp: "?ok t" if "t \<in> set (spawned c (threads p ! i))" for t
    using that old [OF mem] by (cases c) auto
  show ?thesis
    unfolding quiet_def T' ad
  proof
    fix t
    assume "t \<in> set ((threads p) [i := (threads p ! i) \<lparr> todo := rest, synthesisDoneResult := d \<rparr>]
                       @ spawned c (threads p ! i))"
    then consider "t = (threads p ! i) \<lparr> todo := rest, synthesisDoneResult := d \<rparr>"
      | "t \<in> set (threads p)" | "t \<in> set (spawned c (threads p ! i))"
      using set_update_subset_insert [of "threads p" i] by auto
    then show "?ok t"
    proof cases
      case 1
      with upd show ?thesis by simp
    next
      case 2
      with old show ?thesis by simp
    next
      case 3
      with sp show ?thesis by simp
    qed
  qed
qed

lemma log_since_step:
  assumes "effects (shared p) = effects s0 @ log_since s0 p"
    and "effects (shared p') = effects (shared p) @ es"
  shows "log_since s0 p' = log_since s0 p @ es"
    and "effects (shared p') = effects s0 @ log_since s0 p'"
proof -
  from assms have e: "effects (shared p') = effects s0 @ (log_since s0 p @ es)" by simp
  then show "log_since s0 p' = log_since s0 p @ es"
    by (simp add: log_since_def [of s0 p'])
  with e show "effects (shared p') = effects s0 @ log_since s0 p'" by simp
qed

lemma turn_of_same:
  assumes "m_requestQueue (shared p') = m_requestQueue (shared p)"
    and "history p' = history p @ [(r, c)]"
    and "c \<noteq> S_FireStarted" and "c \<noteq> S_WaitUntilRequestInFrontOfQueue"
  shows "turn_of p' = turn_of p"
  using assms by (cases "m_requestQueue (shared p)") (auto simp: turn_of_def)

lemma logged_step:
  assumes st: "step env i p = Some p'" and lg: "logged s0 p" and q: "quiet p"
    and qo: "queue_ok p" and sw: "started_waited p" and tk: "token_ok p" and so: "static_ok p"
  shows "logged s0 p'"
proof -
  from st obtain c rest s' d where
    i: "i < length (threads p)" and td: "todo (threads p ! i) = c # rest"
    and ex: "exec env c (threads p ! i) (shared p) = Some (s', d)"
    and S': "shared p' = s'"
    and H': "history p' = history p @ [(t_requestId (threads p ! i), c)]"
    by (rule step_elim)
  let ?r = "t_requestId (threads p ! i)"
  let ?Q = "m_requestQueue (shared p)"
  let ?H = "history p"
  let ?push = "S_PushRequestIntoQueue"
  let ?wait = "S_WaitUntilRequestInFrontOfQueue"
  let ?pop = "S_PopRequestFromQueue"
  let ?fs = "S_FireStarted"
  let ?L = "log_since s0 p"
  from lg have l1: "effects (shared p) = effects s0 @ ?L"
    and l2: "submission_order ?L = order_of ?push ?H"
    and l3: "started_order ?L = order_of ?fs ?H"
    and l4: "turns Free ?L = Some (turn_of p)"
    unfolding logged_def by blast+
  from qo have q1: "order_of ?push ?H = order_of ?pop ?H @ ?Q"
    and q2: "distinct (order_of ?push ?H)"
    and q4: "\<And>r. in_window p r \<Longrightarrow> \<exists>q. ?Q = r # q"
    unfolding queue_ok_def by blast+
  from i have mem: "threads p ! i \<in> set (threads p)" by simp
  with q have nr: "\<forall>r. synthesisDoneResult (threads p ! i) = Some r \<longrightarrow>
                      reason r \<noteq> SynthesizingAudioStarted"
    unfolding quiet_def by blast
  from exec_log [OF ex nr] obtain es where
    e: "effects s' = effects (shared p) @ es"
    and e2: "submission_order es = (if c = ?push then [?r] else [])"
    and e3: "started_order es = (if c = ?fs then [?r] else [])"
    and t_wait: "c = ?wait \<longrightarrow> turns Free es = Some (Admitted ?r)"
    and t_fs: "c = ?fs \<longrightarrow> turns (Admitted ?r) es = Some (Active ?r)"
    and t_in: "c = S_AdapterSpeak \<or> c = S_WaitUntilDone \<or> c = S_FireTerminal \<longrightarrow>
                turns (Active ?r) es = Some (Active ?r)"
    and t_pop: "c = ?pop \<longrightarrow> turns (Active ?r) es = Some Free"
    and t_other: "c \<notin> set (tl lifecycle) \<longrightarrow> (\<forall>tn. turns tn es = Some tn)"
    by (elim exE conjE) (rule that)
  from e have e': "effects (shared p') = effects (shared p) @ es" by (simp add: S')
  note ls = log_since_step [OF l1 e']
  have c2: "submission_order (log_since s0 p') = order_of ?push (history p')"
    by (simp add: ls(1) l2 e2 H' order_of_snoc)
  have c3: "started_order (log_since s0 p') = order_of ?fs (history p')"
    by (simp add: ls(1) l3 e3 H' order_of_snoc)
  have tl: "turns Free (log_since s0 p') = turns (turn_of p) es"
    by (simp add: ls(1) turns_append l4)
  note pos = token_position [OF tk so i td]
  note eq = exec_queue [OF ex]
  have c4: "turns (turn_of p) es = Some (turn_of p')"
  proof -
    consider (push) "c = ?push" | (wait) "c = ?wait" | (fs) "c = ?fs"
      | (inner) "c = S_AdapterSpeak \<or> c = S_WaitUntilDone \<or> c = S_FireTerminal"
      | (pop) "c = ?pop" | (other) "c \<notin> set lifecycle"
      by (cases c) (auto simp: lifecycle_def)
    then show ?thesis
    proof cases
      case push
      from eq(1) push have Q': "m_requestQueue (shared p') = ?Q @ [?r]" by (simp add: S')
      from pos(1) [OF push] have n: "(?r, ?fs) \<notin> set ?H" "(?r, ?wait) \<notin> set ?H" by simp_all
      have "turn_of p' = turn_of p"
        using n by (cases ?Q) (simp_all add: turn_of_def Q' H' push)
      moreover from t_other push have "turns (turn_of p) es = Some (turn_of p)"
        by (simp add: lifecycle_def)
      ultimately show ?thesis by simp
    next
      case wait
      from eq(1) wait have Q': "m_requestQueue (shared p') = ?Q" by (simp add: S')
      from eq(2) [OF wait] obtain q where Q: "?Q = ?r # q" by blast
      from pos(4) [OF wait] have n: "(?r, ?wait) \<notin> set ?H" "(?r, ?fs) \<notin> set ?H" by simp_all
      from Q n have "turn_of p = Free" by (simp add: turn_of_def)
      moreover from Q n have "turn_of p' = Admitted ?r" by (simp add: turn_of_def Q' H' wait)
      ultimately show ?thesis using t_wait wait by simp
    next
      case fs
      from eq(1) fs have Q': "m_requestQueue (shared p') = ?Q" by (simp add: S')
      from pos(2) [OF fs] have w: "in_window p ?r" and n: "(?r, ?fs) \<notin> set ?H"
        and y: "(?r, ?wait) \<in> set ?H"
        by (simp_all add: in_window_def)
      from q4 [OF w] obtain q where Q: "?Q = ?r # q" by blast
      from Q n y have "turn_of p = Admitted ?r" by (simp add: turn_of_def)
      moreover from Q have "turn_of p' = Active ?r" by (simp add: turn_of_def Q' H' fs)
      ultimately show ?thesis using t_fs fs by simp
    next
      case inner
      then have ne: "c \<noteq> ?push" "c \<noteq> ?pop" "c \<noteq> ?fs" "c \<noteq> ?wait" by auto
      from eq(1) ne have Q': "m_requestQueue (shared p') = ?Q" by (simp add: S')
      from pos(5) [OF inner] have w: "in_window p ?r" and y: "(?r, ?fs) \<in> set ?H"
        by (simp_all add: in_window_def)
      from q4 [OF w] obtain q where Q: "?Q = ?r # q" by blast
      from Q y have "turn_of p = Active ?r" by (simp add: turn_of_def)
      moreover from Q y have "turn_of p' = Active ?r" by (simp add: turn_of_def Q' H')
      ultimately show ?thesis using t_in inner by simp
    next
      case pop
      from pos(3) [OF pop] have w: "in_window p ?r" and y: "(?r, ?fs) \<in> set ?H"
        by (simp_all add: in_window_def)
      from q4 [OF w] obtain q where Q: "?Q = ?r # q" by blast
      from eq(1) pop Q have Q': "m_requestQueue (shared p') = q" by (simp add: S')
      from Q y have a: "turn_of p = Active ?r" by (simp add: turn_of_def)
      from q1 q2 Q have dist: "distinct (order_of ?pop ?H @ ?r # q)" by simp
      have b: "turn_of p' = Free"
      proof (cases q)
        case Nil
        then show ?thesis by (simp add: turn_of_def Q')
      next
        case (Cons a q')
        have nw: "(a, ?wait) \<notin> set ?H"
        proof
          assume "(a, ?wait) \<in> set ?H"
          moreover from dist Cons have "a \<notin> set (order_of ?pop ?H)" by auto
          then have "(a, ?pop) \<notin> set ?H" by (simp add: in_order_of)
          ultimately have "in_window p a" by (simp add: in_window_def)
          with q4 [of a] Q have "a = ?r" by auto
          with dist Cons show False by simp
        qed
        with sw have "(a, ?fs) \<notin> set ?H" by (auto simp: started_waited_def)
        with nw show ?thesis by (simp add: turn_of_def Q' Cons H' pop)
      qed
      from a b t_pop pop show ?thesis by simp
    next
      case other
      then have ne: "c \<noteq> ?push" "c \<noteq> ?pop" "c \<noteq> ?fs" "c \<noteq> ?wait"
        by (auto simp: lifecycle_def)
      from eq(1) ne have Q': "m_requestQueue (shared p') = ?Q" by (simp add: S')
      from turn_of_same [OF Q' H' ne(3) ne(4)] have "turn_of p' = turn_of p" .
      moreover from other have "c \<notin> set (tl lifecycle)" by (auto simp: lifecycle_def)
      with t_other have "turns (turn_of p) es = Some (turn_of p)" by simp
      ultimately show ?thesis by simp
    qed
  qed
  from ls(2) c2 c3 tl c4 show ?thesis unfolding logged_def by simp
qed


section \<open>Concurrent requests: every run\<close>

lemma invariant_step:
  assumes "invariant p" and "step env i p = Some p'"
  shows "invariant p'"
  using assms unfolding invariant_def
  by (auto intro: static_ok_step one_token_step token_ok_step all_or_token_step known_step
      started_waited_step queue_ok_step)

lemma invariant_run:
  "invariant p \<Longrightarrow> run env sched p = Some p' \<Longrightarrow> invariant p'"
proof (induction sched arbitrary: p)
  case Nil
  then show ?case by simp
next
  case (Cons i sched)
  from Cons.prems(2) obtain p1 where s: "step env i p = Some p1" and r: "run env sched p1 = Some p'"
    by (auto split: option.splits)
  from Cons.prems(1) s have "invariant p1" by (rule invariant_step)
  from Cons.IH [OF this r] show ?case .
qed

lemma run_requests:
  "run env sched p = Some p' \<Longrightarrow> t_requestId ` set (threads p') = t_requestId ` set (threads p)"
proof (induction sched arbitrary: p)
  case Nil
  then show ?case by simp
next
  case (Cons i sched)
  from Cons.prems obtain p1 where s: "step env i p = Some p1" and r: "run env sched p1 = Some p'"
    by (auto split: option.splits)
  from Cons.IH [OF r] step_requests [OF s] show ?case by simp
qed



lemma start_nth:
  "i < length reqs \<Longrightarrow>
   t_requestId (threads (start s reqs) ! i) = req_id (reqs ! i)
   \<and> todo (threads (start s reqs) ! i) = entry (req_convention (reqs ! i))"
  by (simp add: start_def first_thread_def)

lemma lifecycle_not_Nil: "lifecycle \<noteq> []"
  by (simp add: lifecycle_def)

lemma invariant_start:
  assumes d: "distinct (map req_id reqs)" and q: "m_requestQueue s = []"
  shows "invariant (start s reqs)"
proof -
  have len: "length (threads (start s reqs)) = length reqs" by (simp add: start_def)
  have h: "history (start s reqs) = []" by (simp add: start_def)
  have "static_ok (start s reqs)"
    by (auto simp: static_ok_def start_def first_thread_def tailfree_entry pending_entry)
  moreover have "one_token (start s reqs)"
    unfolding one_token_def len
  proof (intro allI impI)
    fix i j
    assume "i < length reqs" "j < length reqs" "i \<noteq> j"
      and "t_requestId (threads (start s reqs) ! i) = t_requestId (threads (start s reqs) ! j)"
    with d have False
      by (simp add: start_nth distinct_conv_nth)
    then show "pending (todo (threads (start s reqs) ! j)) = []" ..
  qed
  moreover have "token_ok (start s reqs)"
    unfolding token_ok_def len by (simp add: start_nth pending_entry h)
  moreover have "all_or_token (start s reqs)"
    unfolding all_or_token_def len
  proof (intro allI impI disjI2)
    fix i
    assume i: "i < length reqs"
    then show "\<exists>k<length reqs.
        t_requestId (threads (start s reqs) ! k) = t_requestId (threads (start s reqs) ! i)
        \<and> pending (todo (threads (start s reqs) ! k)) \<noteq> []"
      by (intro exI [of _ i]) (simp add: start_nth pending_entry lifecycle_not_Nil)
  qed
  moreover have "known (start s reqs)" by (simp add: known_def h)
  moreover have "started_waited (start s reqs)" by (simp add: started_waited_def h)
  moreover have "queue_ok (start s reqs)"
    using q by (simp add: queue_ok_def h order_of_def front_started_def in_window_def start_def)
  ultimately show ?thesis by (simp add: invariant_def)
qed

lemma front_started_prefix: "prefix (front_started p) (m_requestQueue (shared p))"
  by (cases "m_requestQueue (shared p)") (simp_all add: front_started_def)

lemma finished_all_done:
  assumes inv: "invariant p" and f: "finished p" and r: "r \<in> t_requestId ` set (threads p)"
    and x: "x \<in> set lifecycle"
  shows "(r, x) \<in> set (history p)"
proof -
  from r obtain i where i: "i < length (threads p)" and ri: "t_requestId (threads p ! i) = r"
    by (auto simp: in_set_conv_nth)
  from f have "pending (todo (threads p ! k)) = []" if "k < length (threads p)" for k
    using that by (simp add: finished_def list_all_length)
  with inv i ri x show ?thesis
    unfolding invariant_def all_or_token_def by blast
qed

lemma finished_queue_empty:
  assumes inv: "invariant p" and f: "finished p"
  shows "m_requestQueue (shared p) = []"
proof (cases "m_requestQueue (shared p)")
  case Nil
  then show ?thesis .
next
  case (Cons a q)
  from inv have q1: "order_of S_PushRequestIntoQueue (history p)
        = order_of S_PopRequestFromQueue (history p) @ m_requestQueue (shared p)"
    and q2: "distinct (order_of S_PushRequestIntoQueue (history p))"
    and kn: "known p"
    unfolding invariant_def queue_ok_def by blast+
  from q1 Cons have "a \<in> set (order_of S_PushRequestIntoQueue (history p))" by simp
  then have "(a, S_PushRequestIntoQueue) \<in> set (history p)" by (simp add: in_order_of)
  with kn have "a \<in> t_requestId ` set (threads p)" by (auto simp: known_def)
  from finished_all_done [OF inv f this, of S_PopRequestFromQueue]
  have "a \<in> set (order_of S_PopRequestFromQueue (history p))"
    by (simp add: in_order_of lifecycle_def)
  with q1 q2 Cons show ?thesis by auto
qed



lemma logged_run:
  "invariant p \<Longrightarrow> quiet p \<Longrightarrow> logged s0 p \<Longrightarrow> run env sched p = Some p' \<Longrightarrow>
   invariant p' \<and> logged s0 p'"
proof (induction sched arbitrary: p)
  case Nil
  then show ?case by simp
next
  case (Cons i sched)
  from Cons.prems(4) obtain p1 where s: "step env i p = Some p1" and r: "run env sched p1 = Some p'"
    by (auto split: option.splits)
  from Cons.prems(1) s have i1: "invariant p1" by (rule invariant_step)
  from s Cons.prems(2) have q1: "quiet p1" by (rule quiet_step)
  from Cons.prems(1) have "queue_ok p" "started_waited p" "token_ok p" "static_ok p"
    by (simp_all add: invariant_def)
  with s Cons.prems(3) Cons.prems(2) have l1: "logged s0 p1"
    using logged_step by blast
  from Cons.IH [OF i1 q1 l1 r] show ?case .
qed

lemma quiet_start:
  assumes "\<forall>r \<in> set reqs. \<not> reports_started (m_ttsAdapter s) (req_text r) (req_isSsml r) (req_id r)"
  shows "quiet (start s reqs)"
  using assms by (auto simp: quiet_def start_def first_thread_def)

lemma logged_start: "m_requestQueue s = [] \<Longrightarrow> logged s (start s reqs)"
  by (simp add: logged_def log_since_def start_def turn_of_def order_of_def)

text \<open>
  C1. Requests with distinct ids are submitted to a synthesizer whose queue is empty, each
  by any of the four calling conventions, and their threads run in any interleaving; the
  adapter reports no request as just started. Of every process such a run reaches, the log
  of the synthesizer shows this. Every request is pushed at most once. The requests whose
  Started event has fired are, in the order of firing, a prefix of the requests in the
  order of their pushes (\<open>PushRequestIntoQueue\<close>), and the two orders are equal, and list
  every request, once all threads have finished. The adapter-invocation windows do not
  overlap: a wait returns only when the window before it has been closed by its pop; each
  request's Started event and its adapter invocation lie in the request's own window, in
  this order; the other events and the accesses to the output lie in a window; and no
  window is open once all threads have finished.
\<close>

theorem requests_start_in_submission_order:
  assumes "distinct (map req_id reqs)" and "m_requestQueue s = []"
    and "\<forall>r \<in> set reqs. \<not> reports_started (m_ttsAdapter s) (req_text r) (req_isSsml r) (req_id r)"
    and "run env sched (start s reqs) = Some p"
  shows "effects (shared p) = effects s @ log_since s p
    \<and> distinct (submission_order (log_since s p))
    \<and> prefix (started_order (log_since s p)) (submission_order (log_since s p))
    \<and> turns Free (log_since s p) \<noteq> None
    \<and> (finished p \<longrightarrow>
         started_order (log_since s p) = submission_order (log_since s p)
         \<and> set (submission_order (log_since s p)) = set (map req_id reqs)
         \<and> turns Free (log_since s p) = Some Free)"
proof -
  from assms have il: "invariant p \<and> logged s p"
    using invariant_start quiet_start logged_start logged_run by blast
  then have inv: "invariant p" and lg: "logged s p" by simp_all
  from inv have q1: "order_of S_PushRequestIntoQueue (history p)
        = order_of S_PopRequestFromQueue (history p) @ m_requestQueue (shared p)"
    and q2: "distinct (order_of S_PushRequestIntoQueue (history p))"
    and q3: "order_of S_FireStarted (history p)
        = order_of S_PopRequestFromQueue (history p) @ front_started p"
    and kn: "known p"
    unfolding invariant_def queue_ok_def by blast+
  from lg have l1: "effects (shared p) = effects s @ log_since s p"
    and l2: "submission_order (log_since s p) = order_of S_PushRequestIntoQueue (history p)"
    and l3: "started_order (log_since s p) = order_of S_FireStarted (history p)"
    and l4: "turns Free (log_since s p) = Some (turn_of p)"
    unfolding logged_def by blast+
  have ids: "t_requestId ` set (threads p) = set (map req_id reqs)"
    using run_requests [OF assms(4)] by (simp add: start_def first_thread_def image_image)
  have a: "prefix (started_order (log_since s p)) (submission_order (log_since s p))"
    using front_started_prefix [of p] by (simp add: l2 l3 q1 q3)
  have b: "distinct (submission_order (log_since s p))"
    using q2 by (simp add: l2)
  have c: "started_order (log_since s p) = submission_order (log_since s p)
           \<and> set (submission_order (log_since s p)) = set (map req_id reqs)
           \<and> turns Free (log_since s p) = Some Free"
    if f: "finished p"
  proof (intro conjI)
    from finished_queue_empty [OF inv f]
    have e: "m_requestQueue (shared p) = []" .
    then show "started_order (log_since s p) = submission_order (log_since s p)"
      by (simp add: l2 l3 q1 q3 front_started_def)
    from e show "turns Free (log_since s p) = Some Free"
      by (simp add: l4 turn_of_def)
    show "set (submission_order (log_since s p)) = set (map req_id reqs)"
    proof
      show "set (submission_order (log_since s p)) \<subseteq> set (map req_id reqs)"
        using kn ids by (force simp: l2 in_order_of known_def)
      show "set (map req_id reqs) \<subseteq> set (submission_order (log_since s p))"
      proof
        fix r
        assume "r \<in> set (map req_id reqs)"
        with ids have "r \<in> t_requestId ` set (threads p)" by simp
        from finished_all_done [OF inv f this, of S_PushRequestIntoQueue]
        show "r \<in> set (submission_order (log_since s p))"
          by (simp add: l2 in_order_of lifecycle_def)
      qed
    qed
  qed
  from l1 a b c l4 show ?thesis by simp
qed

theorem requests_start_in_submission_order_witness:
  "distinct (map req_id two_requests)
   \<and> m_requestQueue test_synthesizer = []
   \<and> \<not> reports_started (m_ttsAdapter test_synthesizer) ''hello'' False ''r1''
   \<and> \<not> reports_started (m_ttsAdapter test_synthesizer) ''hello'' False ''r2''
   \<and> map_option (\<lambda>p. submission_order (log_since test_synthesizer p))
       (run (test_site [] []) two_requests_schedule (start test_synthesizer two_requests))
       = Some [''r2'', ''r1'']
   \<and> map_option (\<lambda>p. started_order (log_since test_synthesizer p))
       (run (test_site [] []) two_requests_schedule (start test_synthesizer two_requests))
       = Some [''r2'', ''r1'']
   \<and> map_option (\<lambda>p. turns Free (log_since test_synthesizer p))
       (run (test_site [] []) two_requests_schedule (start test_synthesizer two_requests))
       = Some (Some Free)
   \<and> map_option finished
       (run (test_site [] []) two_requests_schedule (start test_synthesizer two_requests))
       = Some True
   \<and> prefix
        (started_order (log_since test_synthesizer
           (the (run (test_site [] []) two_requests_schedule (start test_synthesizer two_requests)))))
        (submission_order (log_since test_synthesizer
           (the (run (test_site [] []) two_requests_schedule (start test_synthesizer two_requests)))))
   \<and> set (submission_order (log_since test_synthesizer
           (the (run (test_site [] []) two_requests_schedule (start test_synthesizer two_requests)))))
       = set (map req_id two_requests)"
proof -
  let ?run = "run (test_site [] []) two_requests_schedule (start test_synthesizer two_requests)"
  have d: "distinct (map req_id two_requests)"
    by (simp add: two_requests_def test_request_def)
  have q: "m_requestQueue test_synthesizer = []"
    by (simp add: test_synthesizer_def)
  have a: "\<forall>r \<in> set two_requests.
         \<not> reports_started (m_ttsAdapter test_synthesizer) (req_text r) (req_isSsml r) (req_id r)"
    by (simp add: two_requests_def test_request_def test_synthesizer_def reports_started_def
        test_adapter_def InitSynthesisResult_def)
  have s: "map_option (\<lambda>p. submission_order (log_since test_synthesizer p)) ?run
             = Some [''r2'', ''r1'']"
    by code_simp
  have t: "map_option (\<lambda>p. started_order (log_since test_synthesizer p)) ?run
             = Some [''r2'', ''r1'']"
    by code_simp
  have w: "map_option (\<lambda>p. turns Free (log_since test_synthesizer p)) ?run = Some (Some Free)"
    by code_simp
  have f: "map_option finished ?run = Some True"
    by code_simp
  from s obtain p where r: "?run = Some p"
    by auto
  have a': "\<not> reports_started (m_ttsAdapter test_synthesizer) ''hello'' False ''r1''"
    "\<not> reports_started (m_ttsAdapter test_synthesizer) ''hello'' False ''r2''"
    using a by (simp_all add: two_requests_def test_request_def)
  from requests_start_in_submission_order [OF d q a r] r f
  have "prefix (started_order (log_since test_synthesizer p))
          (submission_order (log_since test_synthesizer p))
        \<and> set (submission_order (log_since test_synthesizer p)) = set (map req_id two_requests)"
    by simp
  with d q a' s t w f r show ?thesis by simp
qed










end
